theory Spec2Isabelle
  imports Main
begin

section \<open>The libraries the package calls\<close>

text \<open>
  The package is Python 2.7 code (\<^verbatim>\<open>izip\<close>, \<^verbatim>\<open>.next()\<close>, \<^verbatim>\<open>unicode\<close>) that talks to
  \<^verbatim>\<open>dns.resolver\<close>, \<^verbatim>\<open>smtplib.SMTP\<close> and \<^verbatim>\<open>uuid\<close>. Every call into one of these
  libraries is logged as an event; the library's answer is a function of the whole log up to
  and including the call, so that a server may answer the same command differently the second
  time. The log is the only global state.
\<close>

datatype event =
    DnsQuery string   \<comment> \<open>\<^verbatim>\<open>dns.resolver.query(qname, rdtype=MX)\<close>\<close>
  | Uuid4             \<comment> \<open>\<^verbatim>\<open>uuid.uuid4()\<close>\<close>
  | Connect string    \<comment> \<open>\<^verbatim>\<open>smtp.connect(host)\<close>\<close>
  | Ehlo string       \<comment> \<open>\<^verbatim>\<open>smtp.ehlo_or_helo_if_needed()\<close>, with the local hostname\<close>
  | Mail string       \<comment> \<open>\<^verbatim>\<open>smtp.mail(mail_from)\<close>\<close>
  | Rcpt string       \<comment> \<open>\<^verbatim>\<open>smtp.rcpt(email_addr)\<close>\<close>
  | Quit              \<comment> \<open>\<^verbatim>\<open>smtp.quit()\<close>\<close>

text \<open>
  The exceptions the code raises or handles. In Python 2.7 \<^verbatim>\<open>socket.timeout\<close> is a subclass
  of \<^verbatim>\<open>socket.error\<close>; the exceptions of \<^verbatim>\<open>smtplib\<close> are not.
\<close>

datatype exn =
    SocketError
  | SocketTimeout
  | SMTPServerDisconnected
  | SMTPHeloError
  | DNSException
  | SMTPSessionError string
  | StopIteration
  | ValueError
  | TypeError
  | IndexError
  | AssertionError
  | PyException

definition is_socket_error :: "exn \<Rightarrow> bool" where
  "is_socket_error x = (x = SocketError \<or> x = SocketTimeout)"

datatype reply = Code int | Raise exn

type_synonym Exchange = "string \<times> int"

record env =
  dns :: bool                                                \<comment> \<open>the \<^verbatim>\<open>dns\<close> package was imported\<close>
  query_mx :: "event list \<Rightarrow> exn + (string \<times> int) list"  \<comment> \<open>the MX answer: \<^verbatim>\<open>to_text()\<close> of each exchange, preference\<close>
  uuid4 :: "event list \<Rightarrow> string"
  smtplib :: "event list \<Rightarrow> reply"
  is_valid_address :: "string \<Rightarrow> bool"
  split_email :: "string \<Rightarrow> string \<times> string"
  normalize_email :: "string \<Rightarrow> string list \<Rightarrow> string"
  is_free :: "string \<Rightarrow> bool"
  is_disposable :: "string list \<Rightarrow> bool"
  is_role :: "string \<Rightarrow> bool"

text \<open>
  The last six fields are the pure collaborators of \<^verbatim>\<open>base.py\<close> and \<^verbatim>\<open>utils.py\<close>
  (a regular expression match, \<^verbatim>\<open>email.utils.parseaddr\<close>, word lists read from files):
  they are parameters here.
\<close>

definition lib :: "env \<Rightarrow> event \<Rightarrow> event list \<Rightarrow> reply \<times> event list" where
  "lib E ev h = (smtplib E (h @ [ev]), h @ [ev])"

section \<open>smtp.py\<close>

subsection \<open>resolve_mx_records\<close>

text \<open>
  Of the keyword arguments only \<^verbatim>\<open>raise_exception\<close> is modelled; the source hands the
  others to the query. A list is sorted by \<^verbatim>\<open>list.sort\<close>, which is stable, as \<open>sort_key\<close> is.
\<close>

definition py_find :: "string \<Rightarrow> char \<Rightarrow> int" where
  \<comment> \<open>\<^verbatim>\<open>str.find\<close>: the index of the first occurrence, or -1\<close>
  "py_find s c = (if c \<in> set s then int (length (takeWhile (\<lambda>x. x \<noteq> c) s)) else - 1)"

definition rstrip :: "char \<Rightarrow> string \<Rightarrow> string" where
  "rstrip c s = rev (dropWhile (\<lambda>x. x = c) (rev s))"

definition resolve_mx_records ::
  "env \<Rightarrow> string \<Rightarrow> bool \<Rightarrow> event list \<Rightarrow> (exn + Exchange list) \<times> event list" where
  "resolve_mx_records E qname raise_exception h =
     (if \<not> dns E then (Inl PyException, h)
      else
        let qname = drop (nat (py_find qname (CHR ''@'') + 1)) qname;
            h1 = h @ [DnsQuery qname]
        in case query_mx E h1 of
             Inr answer \<Rightarrow>
               (Inr (sort_key snd (map (\<lambda>(ex, pref). (rstrip (CHR ''.'') ex, pref)) answer)), h1)
           | Inl x \<Rightarrow>
               if x = DNSException
               then (if raise_exception then (Inl x, h1) else (Inr [], h1))
               else (Inl x, h1))"

subsection \<open>SMTPSession\<close>

record session =
  host :: string
  mail_from :: string
  local_hostname :: string
  timeout :: int
  debuglevel :: int
  smtp :: bool      \<comment> \<open>\<^verbatim>\<open>self._smtp\<close> holds an SMTP object (True) or None (False)\<close>

text \<open>
  The keyword arguments \<^verbatim>\<open>**smtp_opts\<close>: the four recognised names, and the names of any
  other keyword given.
\<close>

record smtp_opts =
  opt_mail_from :: "string option"
  opt_timeout :: "int option"
  opt_local_hostname :: "string option"
  opt_debuglevel :: "int option"
  opt_extra :: "string list"

definition DEFAULT_LOCAL_HOSTNAME :: string where
  "DEFAULT_LOCAL_HOSTNAME = ''google-public-dns-a.google.com''"

definition DEFAULT_TIMEOUT :: int where
  "DEFAULT_TIMEOUT = 20"

definition DEFAULT_EMAIL_FROM :: string where
  "DEFAULT_EMAIL_FROM = ''hello@google.com''"

definition SMTPSession :: "string \<Rightarrow> smtp_opts \<Rightarrow> session" where
  "SMTPSession hst opts =
     \<lparr> host = hst,
       mail_from = (case opt_mail_from opts of None \<Rightarrow> DEFAULT_EMAIL_FROM | Some m \<Rightarrow> m),
       local_hostname = (case opt_local_hostname opts of None \<Rightarrow> DEFAULT_LOCAL_HOSTNAME | Some l \<Rightarrow> l),
       timeout = (case opt_timeout opts of None \<Rightarrow> DEFAULT_TIMEOUT | Some t \<Rightarrow> t),
       debuglevel = (case opt_debuglevel opts of None \<Rightarrow> 0 | Some d \<Rightarrow> d),
       smtp = False \<rparr>"

definition quit :: "env \<Rightarrow> session \<Rightarrow> event list \<Rightarrow> (exn + unit) \<times> session \<times> event list" where
  "quit E s h =
     (if smtp s then
        (case lib E Quit h of
           (Raise x, h1) \<Rightarrow>
             if x = SMTPServerDisconnected then (Inr (), s\<lparr>smtp := False\<rparr>, h1)
             else (Inl x, s, h1)
         | (Code c, h1) \<Rightarrow> (Inr (), s\<lparr>smtp := False\<rparr>, h1))
      else (Inr (), s\<lparr>smtp := False\<rparr>, h))"

text \<open>\<^verbatim>\<open>self.quit(); raise SMTPSessionError(reason)\<close>\<close>

definition quit_and_raise ::
  "env \<Rightarrow> string \<Rightarrow> session \<Rightarrow> event list \<Rightarrow> (exn + unit) \<times> session \<times> event list" where
  "quit_and_raise E r s h =
     (case quit E s h of
        (Inl x, s1, h1) \<Rightarrow> (Inl x, s1, h1)
      | (Inr u, s1, h1) \<Rightarrow> (Inl (SMTPSessionError r), s1, h1))"

text \<open>The inner \<^verbatim>\<open>try\<close> of \<^verbatim>\<open>start\<close>: connect, with its handler \<^verbatim>\<open>except socket.error\<close>.\<close>

definition start_connect :: "env \<Rightarrow> session \<Rightarrow> event list \<Rightarrow> (exn + unit) \<times> session \<times> event list" where
  "start_connect E s h =
     (case (case lib E (Connect (host s)) h of
              (Raise x, h1) \<Rightarrow> (Inl x, s, h1)
            | (Code c, h1) \<Rightarrow>
                if c \<noteq> 220 then quit_and_raise E ''invalid_smtp'' s h1
                else (Inr (), s, h1))
      of (Inl x, s1, h1) \<Rightarrow>
           if is_socket_error x then (Inl (SMTPSessionError ''no_connect''), s1, h1)
           else (Inl x, s1, h1)
       | (Inr u, s1, h1) \<Rightarrow> (Inr u, s1, h1))"

text \<open>The second \<^verbatim>\<open>try\<close>: the greeting, with its handler \<^verbatim>\<open>except smtplib.SMTPHeloError\<close>.\<close>

definition start_helo :: "env \<Rightarrow> session \<Rightarrow> event list \<Rightarrow> (exn + unit) \<times> session \<times> event list" where
  "start_helo E s h =
     (case lib E (Ehlo (local_hostname s)) h of
        (Raise x, h1) \<Rightarrow>
          if x = SMTPHeloError then quit_and_raise E ''invalid_smtp'' s h1
          else (Inl x, s, h1)
      | (Code c, h1) \<Rightarrow> (Inr (), s, h1))"

definition start_mail :: "env \<Rightarrow> session \<Rightarrow> event list \<Rightarrow> (exn + unit) \<times> session \<times> event list" where
  "start_mail E s h =
     (case lib E (Mail (mail_from s)) h of
        (Raise x, h1) \<Rightarrow> (Inl x, s, h1)
      | (Code c, h1) \<Rightarrow>
          if c \<noteq> 250 then quit_and_raise E ''invalid_smtp'' s h1
          else (Inr (), s, h1))"

definition start :: "env \<Rightarrow> session \<Rightarrow> event list \<Rightarrow> (exn + unit) \<times> session \<times> event list" where
  "start E s h =
     (let s0 = s\<lparr>smtp := True\<rparr> in
      case (case start_connect E s0 h of
              (Inl x, s1, h1) \<Rightarrow> (Inl x, s1, h1)
            | (Inr u, s1, h1) \<Rightarrow>
                (case start_helo E s1 h1 of
                   (Inl x, s2, h2) \<Rightarrow> (Inl x, s2, h2)
                 | (Inr u, s2, h2) \<Rightarrow> start_mail E s2 h2))
      of (Inl x, s3, h3) \<Rightarrow>
           if x = SocketTimeout then (Inl (SMTPSessionError ''timeout''), s3, h3)
           else if x = SMTPServerDisconnected then (Inl (SMTPSessionError ''invalid_smtp''), s3, h3)
           else (Inl x, s3, h3)
       | (Inr u, s3, h3) \<Rightarrow> (Inr u, s3, h3))"

definition restart :: "env \<Rightarrow> session \<Rightarrow> event list \<Rightarrow> (exn + unit) \<times> session \<times> event list" where
  "restart E s h =
     (case quit E s h of
        (Inl x, s1, h1) \<Rightarrow> (Inl x, s1, h1)
      | (Inr u, s1, h1) \<Rightarrow> start E s1 h1)"

text \<open>\<^verbatim>\<open>__enter__\<close>\<close>

definition enter :: "env \<Rightarrow> session \<Rightarrow> event list \<Rightarrow> (exn + unit) \<times> session \<times> event list" where
  "enter E s h = (if \<not> smtp s then start E s h else (Inr (), s, h))"

subsection \<open>Generators\<close>

text \<open>
  \<^verbatim>\<open>recipients\<close> and \<^verbatim>\<open>verify_smtp_recipients\<close> are generators: their bodies run only as far
  as the consumer asks. A run of a generator is modelled with the number \<open>k\<close> of items the
  consumer asks for: the generator runs until it has yielded \<open>k\<close> items (it is then left
  suspended at that \<^verbatim>\<open>yield\<close>, and the code after it has not run), or until it returns or
  raises while the consumer waits for an item. A consumer that iterates to the end asks for
  more items than there are.
\<close>

datatype gen_end = Suspended | Finished | Raised exn

definition cons_item :: "'a \<Rightarrow> 'a list \<times> 'b \<Rightarrow> 'a list \<times> 'b" where
  "cons_item x r = (x # fst r, snd r)"

text \<open>
  The loop of \<^verbatim>\<open>recipients\<close>; \<open>active\<close> is \<^verbatim>\<open>active_session\<close>. The handler
  \<^verbatim>\<open>except (socket.timeout, smtplib.SMTPServerDisconnected)\<close> covers the RCPT and the restart;
  it yields nothing for the address at hand.
\<close>

definition lost :: "exn \<Rightarrow> bool" where
  "lost x = (x = SocketTimeout \<or> x = SMTPServerDisconnected)"

fun recipients_loop ::
  "env \<Rightarrow> bool \<Rightarrow> string list \<Rightarrow> nat \<Rightarrow> session \<Rightarrow> event list
     \<Rightarrow> (string \<times> bool) list \<times> gen_end \<times> session \<times> event list" where
  "recipients_loop E active es 0 s h = ([], Suspended, s, h)"
| "recipients_loop E active [] (Suc k) s h = ([], Finished, s, h)"
| "recipients_loop E active (email_addr # es) (Suc k) s h =
     (if active then
        (case lib E (Rcpt email_addr) h of
           (Raise x, h1) \<Rightarrow>
             if lost x then
               (case quit E s h1 of
                  (Inl y, s2, h2) \<Rightarrow> ([], Raised y, s2, h2)
                | (Inr u, s2, h2) \<Rightarrow> recipients_loop E False es (Suc k) s2 h2)
             else ([], Raised x, s, h1)
         | (Code c, h1) \<Rightarrow>
             cons_item (email_addr, c = 250 \<or> c = 251)
               (if k = 0 then ([], Suspended, s, h1)
                else if c = 552 \<or> c = 554 then
                  (case restart E s h1 of
                     (Inl x, s2, h2) \<Rightarrow>
                       if lost x then
                         (case quit E s2 h2 of
                            (Inl y, s3, h3) \<Rightarrow> ([], Raised y, s3, h3)
                          | (Inr u, s3, h3) \<Rightarrow> recipients_loop E False es k s3 h3)
                       else ([], Raised x, s2, h2)
                   | (Inr u, s2, h2) \<Rightarrow> recipients_loop E True es k s2 h2)
                else recipients_loop E True es k s h1))
      else cons_item (email_addr, False) (recipients_loop E False es k s h))"

definition recipients ::
  "env \<Rightarrow> string list \<Rightarrow> nat \<Rightarrow> session \<Rightarrow> event list
     \<Rightarrow> (string \<times> bool) list \<times> gen_end \<times> session \<times> event list" where
  "recipients E email_addresses k s h =
     (if k = 0 then ([], Suspended, s, h)
      else if email_addresses = [] then ([], Raised AssertionError, s, h)
      else if \<not> smtp s then ([], Raised AssertionError, s, h)
      else recipients_loop E True email_addresses k s h)"

text \<open>The loop of the handler \<^verbatim>\<open>except SMTPSessionError as e\<close> of \<^verbatim>\<open>verify_smtp_recipients\<close>.\<close>

fun failed_loop :: "string \<Rightarrow> string list \<Rightarrow> nat \<Rightarrow> (string \<times> bool \<times> string) list \<times> gen_end" where
  "failed_loop r es 0 = ([], Suspended)"
| "failed_loop r [] (Suc k) = ([], Finished)"
| "failed_loop r (email_addr # es) (Suc k) = cons_item (email_addr, False, r) (failed_loop r es k)"

text \<open>
  What \<^verbatim>\<open>verify_smtp_recipients\<close> does with an exception that leaves its \<^verbatim>\<open>with\<close> block,
  after \<open>out\<close> was yielded, with \<open>k\<close> items still asked for.
\<close>

definition session_failed ::
  "exn \<Rightarrow> string list \<Rightarrow> (string \<times> bool \<times> string) list \<Rightarrow> nat \<Rightarrow> event list
     \<Rightarrow> (string \<times> bool \<times> string) list \<times> gen_end \<times> session option \<times> event list" where
  "session_failed x es out k h =
     (case x of
        SMTPSessionError r \<Rightarrow>
          (case failed_loop r es k of (items, e) \<Rightarrow> (out @ items, e, None, h))
      | _ \<Rightarrow> (out, Raised x, None, h))"

text \<open>\<^verbatim>\<open>reason = 'accepted_email' if accepted else 'rejected_email'\<close>\<close>

definition label :: "string \<times> bool \<Rightarrow> string \<times> bool \<times> string" where
  "label = (\<lambda>(email_addr, accepted).
              (email_addr, accepted, if accepted then ''accepted_email'' else ''rejected_email''))"

text \<open>
  The result of a run: the items yielded, how the run ended, the session whose \<^verbatim>\<open>with\<close>
  block the generator is suspended in (if it is), and the log. The addresses are a list
  here; the source puts a single string into a list first. A keyword that \<^verbatim>\<open>SMTPSession\<close>
  does not know is a \<^verbatim>\<open>TypeError\<close> of the call that makes the session.
\<close>

definition verify_smtp_recipients ::
  "env \<Rightarrow> string \<Rightarrow> string list \<Rightarrow> smtp_opts \<Rightarrow> nat \<Rightarrow> event list
     \<Rightarrow> (string \<times> bool \<times> string) list \<times> gen_end \<times> session option \<times> event list" where
  "verify_smtp_recipients E hst email_addresses opts k h =
     (if k = 0 then ([], Suspended, None, h)
      else if opt_extra opts \<noteq> [] then ([], Raised TypeError, None, h)
      else
        (case enter E (SMTPSession hst opts) h of
           (Inl x, s1, h1) \<Rightarrow> session_failed x email_addresses [] k h1
         | (Inr u, s1, h1) \<Rightarrow>
             (case recipients E email_addresses k s1 h1 of
                (items, e, s2, h2) \<Rightarrow>
                  let out = map label items
                  in (case e of
                        Suspended \<Rightarrow> (out, Suspended, Some s2, h2)
                      | Finished \<Rightarrow>
                          (case quit E s2 h2 of
                             (Inl y, s3, h3) \<Rightarrow> session_failed y email_addresses out (k - length out) h3
                           | (Inr u, s3, h3) \<Rightarrow> (out, Finished, None, h3))
                      | Raised x \<Rightarrow>
                          (case quit E s2 h2 of
                             (Inl y, s3, h3) \<Rightarrow> session_failed y email_addresses out (k - length out) h3
                           | (Inr u, s3, h3) \<Rightarrow> session_failed x email_addresses out (k - length out) h3)))))"

text \<open>
  A suspended generator that is dropped is closed: \<^verbatim>\<open>GeneratorExit\<close> is raised at its
  \<^verbatim>\<open>yield\<close>, which leaves the \<^verbatim>\<open>with\<close> block through \<^verbatim>\<open>__exit__\<close>, that is \<^verbatim>\<open>quit\<close>.
  An exception raised there is ignored.
\<close>

definition close_gen :: "env \<Rightarrow> session option \<Rightarrow> event list \<Rightarrow> event list" where
  "close_gen E pending h =
     (case pending of
        None \<Rightarrow> h
      | Some s \<Rightarrow> (case quit E s h of (r, s1, h1) \<Rightarrow> h1))"

text \<open>\<^verbatim>\<open>verify_smtp_recipients(host, [email_address], **smtp_opts).next()\<close>\<close>

definition verify_smtp_recipient ::
  "env \<Rightarrow> string \<Rightarrow> string \<Rightarrow> smtp_opts \<Rightarrow> event list
     \<Rightarrow> (exn + string \<times> bool \<times> string) \<times> event list" where
  "verify_smtp_recipient E hst email_address opts h =
     (case verify_smtp_recipients E hst [email_address] opts 1 h of
        (items, e, pending, h1) \<Rightarrow>
          (case items of
             x # rest \<Rightarrow> (Inr x, close_gen E pending h1)
           | [] \<Rightarrow> (case e of Raised x \<Rightarrow> (Inl x, h1) | _ \<Rightarrow> (Inl StopIteration, h1))))"

text \<open>\<^verbatim>\<open>verify_smtp_connection\<close>\<close>

definition verify_smtp_connection ::
  "env \<Rightarrow> string \<Rightarrow> smtp_opts \<Rightarrow> event list \<Rightarrow> (exn + bool \<times> string) \<times> event list" where
  "verify_smtp_connection E hst opts h =
     (if opt_extra opts \<noteq> [] then (Inl TypeError, h)
      else
        (case enter E (SMTPSession hst opts) h of
           (Inl x, s1, h1) \<Rightarrow>
             (case x of SMTPSessionError r \<Rightarrow> (Inr (False, r), h1) | _ \<Rightarrow> (Inl x, h1))
         | (Inr u, s1, h1) \<Rightarrow>
             (case quit E s1 h1 of
                (Inl y, s2, h2) \<Rightarrow>
                  (case y of SMTPSessionError r \<Rightarrow> (Inr (False, r), h2) | _ \<Rightarrow> (Inl y, h2))
              | (Inr u, s2, h2) \<Rightarrow> (Inr (True, ''valid_smtp''), h2))))"

section \<open>inspect.py\<close>

datatype status = Deliverable | Undeliverable | Risky | Unknown

record email_address =
  query :: string
  valid :: "bool option"
  email :: "string option"
  user :: "string option"
  domain :: "string option"
  free :: "bool option"
  disposable :: "bool option"
  role :: "bool option"
  gibberish :: bool
  catch_all :: bool
  exchange :: "string option"
  all_exchanges :: "Exchange list option"
  status :: status
  reason :: "string option"

definition EmailAddress :: "string \<Rightarrow> email_address" where
  "EmailAddress q =
     \<lparr> query = q, valid = None, email = None, user = None, domain = None, free = None,
       disposable = None, role = None, gibberish = False, catch_all = False, exchange = None,
       all_exchanges = None, status = Unknown, reason = None \<rparr>"

text \<open>Truth values of \<^verbatim>\<open>None\<close>, a list, a boolean attribute.\<close>

definition truthy_list :: "'a list option \<Rightarrow> bool" where
  "truthy_list v = (case v of None \<Rightarrow> False | Some xs \<Rightarrow> xs \<noteq> [])"

definition truthy_bool :: "bool option \<Rightarrow> bool" where
  "truthy_bool v = (case v of None \<Rightarrow> False | Some b \<Rightarrow> b)"

text \<open>What \<^verbatim>\<open>'{}'.format\<close> prints for a string attribute that may be \<^verbatim>\<open>None\<close>.\<close>

definition py_str :: "string option \<Rightarrow> string" where
  "py_str v = (case v of None \<Rightarrow> ''None'' | Some s \<Rightarrow> s)"

subsection \<open>The first loop: one address\<close>

text \<open>The MX lookup through \<^verbatim>\<open>mx_cache\<close>.\<close>

definition cached_mx ::
  "env \<Rightarrow> string \<Rightarrow> (string \<rightharpoonup> Exchange list) \<Rightarrow> event list
     \<Rightarrow> (exn + Exchange list) \<times> (string \<rightharpoonup> Exchange list) \<times> event list" where
  "cached_mx E d mx_cache h =
     (case mx_cache d of
        None \<Rightarrow>
          (case resolve_mx_records E d False h of
             (Inl x, h1) \<Rightarrow> (Inl x, mx_cache, h1)
           | (Inr exchanges, h1) \<Rightarrow> (Inr exchanges, mx_cache(d \<mapsto> exchanges), h1))
      | Some exchanges \<Rightarrow> (Inr exchanges, mx_cache, h))"

definition inspect_one ::
  "env \<Rightarrow> email_address \<Rightarrow> (string \<rightharpoonup> Exchange list) \<Rightarrow> event list
     \<Rightarrow> (exn + email_address) \<times> (string \<rightharpoonup> Exchange list) \<times> event list" where
  "inspect_one E addr mx_cache h =
     (let addr = addr\<lparr>valid := Some (is_valid_address E (query addr))\<rparr> in
      if \<not> truthy_bool (valid addr)
      then (Inr (addr\<lparr>status := Undeliverable, reason := Some ''invalid_email''\<rparr>), mx_cache, h)
      else
        (case cached_mx E (snd (split_email E (query addr))) mx_cache h of
           (Inl x, mx1, h1) \<Rightarrow> (Inl x, mx1, h1)
         | (Inr found, mx1, h1) \<Rightarrow>
             let addr = addr\<lparr>all_exchanges := Some found\<rparr>;
                 exchanges = map fst found;
                 em = normalize_email E (query addr) exchanges;
                 addr = addr\<lparr>email := Some em\<rparr>;
                 addr = addr\<lparr>user := Some (fst (split_email E em)),
                             domain := Some (snd (split_email E em))\<rparr>;
                 addr = addr\<lparr>free := Some (is_free E (snd (split_email E em)))\<rparr>;
                 addr = addr\<lparr>disposable :=
                               Some (is_disposable E (snd (split_email E em) # exchanges))\<rparr>;
                 addr = addr\<lparr>role := Some (is_role E (fst (split_email E em)))\<rparr>
             in if \<not> truthy_list (all_exchanges addr)
                then (Inr (addr\<lparr>status := Undeliverable, reason := Some ''invalid_domain''\<rparr>), mx1, h1)
                else (Inr (addr\<lparr>reason := Some ''no_connect''\<rparr>), mx1, h1)))"

fun inspect_all ::
  "env \<Rightarrow> email_address list \<Rightarrow> (string \<rightharpoonup> Exchange list) \<Rightarrow> event list
     \<Rightarrow> (exn + email_address list) \<times> (string \<rightharpoonup> Exchange list) \<times> event list" where
  "inspect_all E [] mx_cache h = (Inr [], mx_cache, h)"
| "inspect_all E (addr # addrs) mx_cache h =
     (case inspect_one E addr mx_cache h of
        (Inl x, mx1, h1) \<Rightarrow> (Inl x, mx1, h1)
      | (Inr addr1, mx1, h1) \<Rightarrow>
          (case inspect_all E addrs mx1 h1 of
             (Inl x, mx2, h2) \<Rightarrow> (Inl x, mx2, h2)
           | (Inr addrs1, mx2, h2) \<Rightarrow> (Inr (addr1 # addrs1), mx2, h2)))"

subsection \<open>The second loop: groups of addresses\<close>

text \<open>
  The addresses are objects that the three loops change in place, and \<^verbatim>\<open>with_exchanges\<close>
  and each \<^verbatim>\<open>group\<close> hold references to them: the list \<open>addresses\<close> is the store, and a
  reference is an index into it.
\<close>

definition with_exchanges :: "email_address list \<Rightarrow> nat list" where
  "with_exchanges addresses =
     filter (\<lambda>i. truthy_list (all_exchanges (addresses ! i))) [0..<length addresses]"

text \<open>\<^verbatim>\<open>itertools.groupby\<close>: a group is a maximal run of consecutive items with equal keys.\<close>

function groupby :: "('a \<Rightarrow> 'k) \<Rightarrow> 'a list \<Rightarrow> ('k \<times> 'a list) list" where
  "groupby key [] = []"
| "groupby key (x # xs) =
     (key x, x # takeWhile (\<lambda>y. key y = key x) xs)
       # groupby key (dropWhile (\<lambda>y. key y = key x) xs)"
  by pat_completeness auto
termination
  by (relation "measure (\<lambda>(key, xs). length xs)") (auto simp: length_dropWhile_le less_Suc_eq_le)

definition mark :: "string \<Rightarrow> bool \<Rightarrow> string \<Rightarrow> email_address \<Rightarrow> email_address" where
  "mark r c ex addr = addr\<lparr>reason := Some r, catch_all := c, exchange := Some ex\<rparr>"

text \<open>\<^verbatim>\<open>for addr in group: ...\<close> of the catch-all branch.\<close>

definition mark_group ::
  "string \<Rightarrow> bool \<Rightarrow> string \<Rightarrow> nat list \<Rightarrow> email_address list \<Rightarrow> email_address list" where
  "mark_group r c ex grp addresses =
     fold (\<lambda>i as. as[i := mark r c ex (as ! i)]) grp addresses"

text \<open>\<^verbatim>\<open>for addr, (_, _, reason) in izip(group, it): ...\<close>\<close>

definition mark_each ::
  "bool \<Rightarrow> string \<Rightarrow> (nat \<times> string \<times> bool \<times> string) list \<Rightarrow> email_address list
     \<Rightarrow> email_address list" where
  "mark_each c ex pairs addresses =
     fold (\<lambda>(i, (e, a, r)) as. as[i := mark r c ex (as ! i)]) pairs addresses"

text \<open>
  \<^verbatim>\<open>for exchange, _ in first.all_exchanges: ...\<close>. The variable \<^verbatim>\<open>it\<close> keeps the generator
  of the last group probed address by address, suspended after its last item; binding
  \<^verbatim>\<open>it\<close> anew drops and so closes it. The state of the loop is the store, \<^verbatim>\<open>it\<close> and
  the log. (\<open>exch\<close>, \<open>accepted\<close> and \<open>r\<close> are the source's \<^verbatim>\<open>exchange\<close>, \<^verbatim>\<open>catch_all\<close>
  and \<^verbatim>\<open>reason\<close>, which are field names here.)
\<close>

fun exchange_loop ::
  "env \<Rightarrow> smtp_opts \<Rightarrow> Exchange list \<Rightarrow> string \<Rightarrow> string list \<Rightarrow> nat list
     \<Rightarrow> email_address list \<Rightarrow> session option \<Rightarrow> event list
     \<Rightarrow> (exn + email_address list \<times> session option) \<times> event list" where
  "exchange_loop E opts [] catch_all_email emails grp addresses it h = (Inr (addresses, it), h)"
| "exchange_loop E opts ((exch, pref) # rest) catch_all_email emails grp addresses it h =
     (case verify_smtp_recipient E exch catch_all_email opts h of
        (Inl x, h1) \<Rightarrow> (Inl x, h1)
      | (Inr (e, accepted, r), h1) \<Rightarrow>
          if r = ''no_connect''
          then exchange_loop E opts rest catch_all_email emails grp addresses it h1
          else if accepted
          then (Inr (mark_group r accepted exch grp addresses, it), h1)
          else
            (case verify_smtp_recipients E exch emails opts (length grp) (close_gen E it h1) of
               (items, e, it1, h2) \<Rightarrow>
                 (case e of
                    Raised x \<Rightarrow> (Inl x, h2)
                  | _ \<Rightarrow> (Inr (mark_each accepted exch (zip grp items) addresses, it1), h2))))"

text \<open>
  The body of \<^verbatim>\<open>for domain, group in groupby(...)\<close>. The addresses of a group have an
  e-mail and a domain, which the first loop sets together with the exchanges; for an address
  without them \<open>py_str\<close> gives what \<^verbatim>\<open>format\<close> prints.
\<close>

definition inspect_group ::
  "env \<Rightarrow> smtp_opts \<Rightarrow> string option \<times> nat list \<Rightarrow> email_address list \<Rightarrow> session option
     \<Rightarrow> event list \<Rightarrow> (exn + email_address list \<times> session option) \<times> event list" where
  "inspect_group E opts g addresses it h =
     (case snd g of
        [] \<Rightarrow> (Inl IndexError, h)
      | first # others \<Rightarrow>
          let emails = map (\<lambda>i. py_str (email (addresses ! i))) (snd g);
              h1 = h @ [Uuid4];
              catch_all_email = uuid4 E h1 @ ''@'' @ py_str (fst g)
          in (case all_exchanges (addresses ! first) of
                None \<Rightarrow> (Inl TypeError, h1)
              | Some exchanges \<Rightarrow>
                  exchange_loop E opts exchanges catch_all_email emails (snd g) addresses it h1))"

fun inspect_groups ::
  "env \<Rightarrow> smtp_opts \<Rightarrow> (string option \<times> nat list) list \<Rightarrow> email_address list \<Rightarrow> session option
     \<Rightarrow> event list \<Rightarrow> (exn + email_address list \<times> session option) \<times> event list" where
  "inspect_groups E opts [] addresses it h = (Inr (addresses, it), h)"
| "inspect_groups E opts (g # gs) addresses it h =
     (case inspect_group E opts g addresses it h of
        (Inl x, h1) \<Rightarrow> (Inl x, h1)
      | (Inr (addresses1, it1), h1) \<Rightarrow> inspect_groups E opts gs addresses1 it1 h1)"

subsection \<open>The third loop: the status\<close>

definition set_status :: "email_address \<Rightarrow> email_address" where
  "set_status addr =
     (if reason addr = Some ''accepted_email'' then
        (if truthy_bool (disposable addr) \<or> gibberish addr \<or> catch_all addr
         then addr\<lparr>status := Risky\<rparr>
         else addr\<lparr>status := Deliverable\<rparr>)
      else addr\<lparr>status := Undeliverable\<rparr>)"

definition set_statuses :: "nat list \<Rightarrow> email_address list \<Rightarrow> email_address list" where
  "set_statuses refs addresses = fold (\<lambda>i as. as[i := set_status (as ! i)]) refs addresses"

subsection \<open>inspect_list and inspect\<close>

text \<open>
  An exception that leaves \<^verbatim>\<open>inspect_list\<close> ends the model's run: the log stops at the
  raise. On return the generator still held by \<^verbatim>\<open>it\<close> is dropped.
\<close>

definition inspect_list ::
  "env \<Rightarrow> string list \<Rightarrow> smtp_opts \<Rightarrow> event list \<Rightarrow> (exn + email_address list) \<times> event list" where
  "inspect_list E email_addresses opts h =
     (if opt_extra opts \<noteq> [] then (Inl ValueError, h)
      else
        (case inspect_all E (map EmailAddress email_addresses) Map.empty h of
           (Inl x, mx, h1) \<Rightarrow> (Inl x, h1)
         | (Inr addresses, mx, h1) \<Rightarrow>
             let refs = with_exchanges addresses in
             (case inspect_groups E opts (groupby (\<lambda>i. domain (addresses ! i)) refs) addresses None h1 of
                (Inl x, h2) \<Rightarrow> (Inl x, h2)
              | (Inr (addresses1, it), h2) \<Rightarrow>
                  (Inr (set_statuses refs addresses1), close_gen E it h2))))"

definition inspect ::
  "env \<Rightarrow> string \<Rightarrow> smtp_opts \<Rightarrow> event list \<Rightarrow> (exn + email_address) \<times> event list" where
  "inspect E email_address opts h =
     (case inspect_list E [email_address] opts h of
        (Inl x, h1) \<Rightarrow> (Inl x, h1)
      | (Inr result, h1) \<Rightarrow>
          (case result of
             [] \<Rightarrow> (Inl IndexError, h1)
           | a # rest \<Rightarrow> (Inr a, h1)))"

section \<open>Observing the log\<close>

definition is_rcpt :: "event \<Rightarrow> bool" where
  "is_rcpt ev = (case ev of Rcpt r \<Rightarrow> True | _ \<Rightarrow> False)"

definition is_connect :: "event \<Rightarrow> bool" where
  "is_connect ev = (case ev of Connect hst \<Rightarrow> True | _ \<Rightarrow> False)"

definition is_greet :: "event \<Rightarrow> bool" where
  "is_greet ev = (case ev of Ehlo l \<Rightarrow> True | Mail m \<Rightarrow> True | Quit \<Rightarrow> True | _ \<Rightarrow> False)"

definition is_control :: "event \<Rightarrow> bool" where
  "is_control ev = (is_connect ev \<or> is_greet ev)"

definition is_session :: "string \<Rightarrow> event \<Rightarrow> bool" where
  "is_session hst ev = (is_greet ev \<or> ev = Connect hst)"

definition is_smtp :: "event \<Rightarrow> bool" where
  "is_smtp ev = (is_control ev \<or> is_rcpt ev)"

definition is_dns :: "event \<Rightarrow> bool" where
  "is_dns ev = (case ev of DnsQuery q \<Rightarrow> True | _ \<Rightarrow> False)"

text \<open>The log \<open>h'\<close> is \<open>h\<close> and then events that satisfy \<open>P\<close>.\<close>

definition grows :: "(event \<Rightarrow> bool) \<Rightarrow> event list \<Rightarrow> event list \<Rightarrow> bool" where
  "grows P h h' = (\<exists>t. h' = h @ t \<and> list_all P t)"

text \<open>Two states of one session object: all but \<^verbatim>\<open>_smtp\<close> is equal.\<close>

definition same_cfg :: "session \<Rightarrow> session \<Rightarrow> bool" where
  "same_cfg s s' = (s'\<lparr>smtp := True\<rparr> = s\<lparr>smtp := True\<rparr>)"

text \<open>
  The library's \<^verbatim>\<open>quit\<close>, called after the log \<open>h\<close>, returns or raises
  \<^verbatim>\<open>SMTPServerDisconnected\<close>: the session's \<^verbatim>\<open>quit\<close> then raises nothing.
\<close>

definition quit_answered :: "env \<Rightarrow> event list \<Rightarrow> bool" where
  "quit_answered E h =
     (case smtplib E (h @ [Quit]) of Code c \<Rightarrow> True | Raise x \<Rightarrow> x = SMTPServerDisconnected)"


text \<open>An address without what the probing writes.\<close>

definition unprobed :: "email_address \<Rightarrow> email_address" where
  "unprobed a = a\<lparr>reason := None, catch_all := False, exchange := None\<rparr>"

text \<open>
  The domain \<^verbatim>\<open>inspect_list\<close> takes from a query, which is the key of \<^verbatim>\<open>mx_cache\<close>, and
  the name \<^verbatim>\<open>resolve_mx_records\<close> looks up for it.
\<close>

definition query_domain :: "env \<Rightarrow> string \<Rightarrow> string" where
  "query_domain E q = snd (split_email E q)"

definition lookup_name :: "string \<Rightarrow> string" where
  "lookup_name d = drop (nat (py_find d (CHR ''@'') + 1)) d"

text \<open>The elements of a list that are not in \<open>seen\<close>, each once, in the order they first occur.\<close>

fun firsts :: "'a set \<Rightarrow> 'a list \<Rightarrow> 'a list" where
  "firsts seen [] = []"
| "firsts seen (d # ds) = (if d \<in> seen then firsts seen ds else d # firsts (insert d seen) ds)"

text \<open>
  What the first loop makes of an address, when \<open>mx\<close> is the cache at the end of the loop.
\<close>

definition inspected :: "env \<Rightarrow> (string \<rightharpoonup> Exchange list) \<Rightarrow> email_address \<Rightarrow> email_address \<Rightarrow> bool" where
  "inspected E mx a a' =
     (query a' = query a \<and> gibberish a' = gibberish a \<and>
      valid a' = Some (is_valid_address E (query a)) \<and>
      (if is_valid_address E (query a)
       then (\<exists>exs. all_exchanges a' = Some exs \<and> mx (query_domain E (query a)) = Some exs)
       else all_exchanges a' = all_exchanges a))"






section \<open>Test doubles\<close>

text \<open>
  A concrete environment for running the model: an address is valid when it holds an
  \<^verbatim>\<open>@\<close>, it is split at the first \<^verbatim>\<open>@\<close>, normalisation changes nothing and the word lists
  are empty; the tokens of \<^verbatim>\<open>uuid4\<close> are \<^verbatim>\<open>probe-i\<close>, \<^verbatim>\<open>probe-ii\<close> and so on. The MX table
  and the SMTP server are given.
\<close>

definition partition_at :: "string \<Rightarrow> string \<times> string" where
  "partition_at s =
     (takeWhile (\<lambda>c. c \<noteq> CHR ''@'') s, drop 1 (dropWhile (\<lambda>c. c \<noteq> CHR ''@'') s))"

definition test_env ::
  "(string \<Rightarrow> exn + (string \<times> int) list) \<Rightarrow> (event list \<Rightarrow> reply) \<Rightarrow> env" where
  "test_env mx server =
     \<lparr> dns = True,
       query_mx = (\<lambda>h. case last h of DnsQuery q \<Rightarrow> mx q | _ \<Rightarrow> Inl DNSException),
       uuid4 = (\<lambda>h. ''probe-'' @ replicate (length (filter (\<lambda>ev. ev = Uuid4) h)) (CHR ''i'')),
       smtplib = server,
       is_valid_address = (\<lambda>s. CHR ''@'' \<in> set s),
       split_email = partition_at,
       normalize_email = (\<lambda>q hosts. q),
       is_free = (\<lambda>d. False),
       is_disposable = (\<lambda>ds. False),
       is_role = (\<lambda>u. False) \<rparr>"

definition mx_table :: "string \<Rightarrow> exn + (string \<times> int) list" where
  "mx_table q =
     (if q = ''x.com'' then Inr [(''mx2.x.com.'', 20), (''mx1.x.com.'', 10)]
      else if q = ''y.com'' then Inr [(''mx.y.com.'', 5)]
      else Inl DNSException)"

definition no_opts :: smtp_opts where
  "no_opts = \<lparr> opt_mail_from = None, opt_timeout = None, opt_local_hostname = None,
               opt_debuglevel = None, opt_extra = [] \<rparr>"

text \<open>A server that accepts every connection, sender and recipient.\<close>

definition accept_all :: "event list \<Rightarrow> reply" where
  "accept_all h = (case last h of Connect hst \<Rightarrow> Code 220 | Quit \<Rightarrow> Code 221 | _ \<Rightarrow> Code 250)"

text \<open>A server that cannot be reached in time, and one that is silent after the connection.\<close>

definition connect_times_out :: "event list \<Rightarrow> reply" where
  "connect_times_out h =
     (case last h of
        Connect hst \<Rightarrow> Raise SocketTimeout
      | Quit \<Rightarrow> Raise SMTPServerDisconnected
      | _ \<Rightarrow> Code 250)"

definition helo_times_out :: "event list \<Rightarrow> reply" where
  "helo_times_out h =
     (case last h of
        Connect hst \<Rightarrow> Code 220
      | Ehlo l \<Rightarrow> Raise SocketTimeout
      | Quit \<Rightarrow> Code 221
      | _ \<Rightarrow> Code 250)"


text \<open>
  A server that rejects the probe address and closes the connection on a RCPT for
  \<^verbatim>\<open>a@x.com\<close>.
\<close>

definition drops_a :: "event list \<Rightarrow> reply" where
  "drops_a h =
     (case last h of
        Connect hst \<Rightarrow> Code 220
      | Quit \<Rightarrow> Code 221
      | Rcpt r \<Rightarrow> if r = ''a@x.com'' then Raise SMTPServerDisconnected
                   else if take 6 r = ''probe-'' then Code 550
                   else Code 250
      | _ \<Rightarrow> Code 250)"

text \<open>The first exchange of \<^verbatim>\<open>x.com\<close> greets with 554, every other host accepts everything.\<close>

definition mx1_bad_greeting :: "event list \<Rightarrow> reply" where
  "mx1_bad_greeting h =
     (case last h of
        Connect hst \<Rightarrow> if hst = ''mx1.x.com'' then Code 554 else Code 220
      | Quit \<Rightarrow> Code 221
      | _ \<Rightarrow> Code 250)"

text \<open>A server that accepts \<^verbatim>\<open>a@x.com\<close> and rejects every other recipient.\<close>

definition accepts_a :: "event list \<Rightarrow> reply" where
  "accepts_a h =
     (case last h of
        Connect hst \<Rightarrow> Code 220
      | Quit \<Rightarrow> Code 221
      | Rcpt r \<Rightarrow> if r = ''a@x.com'' then Code 250 else Code 550
      | _ \<Rightarrow> Code 250)"

section \<open>The log\<close>

lemma is_simps [simp]:
  "is_greet Quit" "is_greet (Ehlo l)" "is_greet (Mail m)" "\<not> is_greet (Connect c)" "\<not> is_greet (Rcpt r)"
  "\<not> is_greet Uuid4" "\<not> is_greet (DnsQuery q)"
  "is_connect (Connect c)" "\<not> is_connect Quit" "\<not> is_connect (Ehlo l)" "\<not> is_connect (Mail m)"
  "\<not> is_connect (Rcpt r)" "\<not> is_connect Uuid4" "\<not> is_connect (DnsQuery q)"
  "is_rcpt (Rcpt r)" "\<not> is_rcpt Quit" "\<not> is_rcpt (Ehlo l)" "\<not> is_rcpt (Mail m)"
  "\<not> is_rcpt (Connect c)" "\<not> is_rcpt Uuid4" "\<not> is_rcpt (DnsQuery q)"
  by (simp_all add: is_greet_def is_connect_def is_rcpt_def)

lemma grows_refl [simp]: "grows P h h"
  by (simp add: grows_def)

lemma grows_trans: "grows P h h1 \<Longrightarrow> grows P h1 h2 \<Longrightarrow> grows P h h2"
  by (auto simp: grows_def)

lemma grows_mono: "grows P h h' \<Longrightarrow> (\<And>ev. P ev \<Longrightarrow> Q ev) \<Longrightarrow> grows Q h h'"
  by (auto simp: grows_def list_all_iff)

lemma grows_snoc: "P ev \<Longrightarrow> grows P h (h @ [ev])"
  by (simp add: grows_def)

lemma grows_snoc_trans: "P ev \<Longrightarrow> grows P (h @ [ev]) h' \<Longrightarrow> grows P h h'"
  by (auto simp: grows_def)

lemma greet_control: "grows is_greet h h' \<Longrightarrow> grows is_control h h'"
  by (erule grows_mono) (simp add: is_control_def)

lemma greet_smtp: "grows is_greet h h' \<Longrightarrow> grows is_smtp h h'"
  by (erule grows_mono) (simp add: is_smtp_def is_control_def)

lemma control_smtp: "grows is_control h h' \<Longrightarrow> grows is_smtp h h'"
  by (erule grows_mono) (simp add: is_smtp_def)

lemma grows_no_dns: "grows (\<lambda>ev. \<not> is_dns ev) h h' \<Longrightarrow> filter is_dns h' = filter is_dns h"
  by (auto simp: grows_def list_all_iff)

lemma greet_no_dns: "grows is_greet h h' \<Longrightarrow> filter is_dns h' = filter is_dns h"
  by (rule grows_no_dns, erule grows_mono)
     (auto simp: is_greet_def is_dns_def split: event.splits)



lemma same_cfg_refl [simp]: "same_cfg s s" "same_cfg s (s\<lparr>smtp := b\<rparr>)" "same_cfg (s\<lparr>smtp := b\<rparr>) s"
  by (simp_all add: same_cfg_def)

lemma same_cfg_trans: "same_cfg s s1 \<Longrightarrow> same_cfg s1 s2 \<Longrightarrow> same_cfg s s2"
  by (simp add: same_cfg_def)

lemma same_cfg_host: "same_cfg s s' \<Longrightarrow> host s' = host s \<and> mail_from s' = mail_from s \<and> local_hostname s' = local_hostname s"
  by (cases s, cases s') (simp add: same_cfg_def)

section \<open>The MX resolver\<close>

lemma strip_prefix:
  "\<exists>q. drop (nat (py_find qname (CHR ''@'') + 1)) qname = q \<and>
     (CHR ''@'' \<notin> set qname \<longrightarrow> q = qname) \<and>
     (CHR ''@'' \<in> set qname \<longrightarrow> (\<exists>l. qname = l @ CHR ''@'' # q \<and> CHR ''@'' \<notin> set l))"
proof (cases "CHR ''@'' \<in> set qname")
  case False
  then show ?thesis by (simp add: py_find_def)
next
  case True
  let ?l = "takeWhile (\<lambda>x. x \<noteq> CHR ''@'') qname"
  let ?r = "dropWhile (\<lambda>x. x \<noteq> CHR ''@'') qname"
  from True have "?r \<noteq> []" by (auto simp: dropWhile_eq_Nil_conv)
  moreover have "?r \<noteq> [] \<Longrightarrow> hd ?r = CHR ''@''"
    using hd_dropWhile[of "\<lambda>x. x \<noteq> CHR ''@''" qname] by simp
  ultimately obtain q where r: "?r = CHR ''@'' # q" by (cases ?r) auto
  have split: "qname = ?l @ CHR ''@'' # q"
    using r takeWhile_dropWhile_id[of "\<lambda>x. x \<noteq> CHR ''@''" qname] by simp
  have notin: "CHR ''@'' \<notin> set ?l" by (auto dest: set_takeWhileD)
  have "drop (length ?l + 1) qname = q"
    by (subst (2) split) simp
  hence "drop (nat (py_find qname (CHR ''@'') + 1)) qname = q"
    using True by (simp add: py_find_def nat_add_distrib)
  with split notin True show ?thesis by blast
qed

text \<open>
  Claim C9. With the \<^verbatim>\<open>dns\<close> package present, \<^verbatim>\<open>resolve_mx_records\<close> looks up the name
  \<open>q\<close> that is left of \<open>qname\<close> after its prefix up to the first \<^verbatim>\<open>@\<close> is removed (the whole
  of \<open>qname\<close> when it holds no \<^verbatim>\<open>@\<close>), with one query. On an answer it returns the
  answer's records, trailing dots stripped from the host, sorted ascending by preference, and
  records of equal preference are in the order of the answer. On a \<^verbatim>\<open>DNSException\<close> it
  returns the empty list, unless \<^verbatim>\<open>raise_exception\<close> is set: then the exception is raised.
\<close>

theorem resolve_mx_records_sorted:
  assumes "dns E"
  shows "\<exists>q. (CHR ''@'' \<notin> set qname \<longrightarrow> q = qname) \<and>
             (CHR ''@'' \<in> set qname \<longrightarrow> (\<exists>l. qname = l @ CHR ''@'' # q \<and> CHR ''@'' \<notin> set l)) \<and>
             snd (resolve_mx_records E qname raise_exception h) = h @ [DnsQuery q] \<and>
             (case query_mx E (h @ [DnsQuery q]) of
                Inr answer \<Rightarrow>
                  (\<exists>exchanges. fst (resolve_mx_records E qname raise_exception h) = Inr exchanges \<and>
                     sorted (map snd exchanges) \<and>
                     (\<forall>p. filter (\<lambda>ex. snd ex = p) exchanges =
                          filter (\<lambda>ex. snd ex = p)
                            (map (\<lambda>(t, p). (rstrip (CHR ''.'') t, p)) answer)))
              | Inl x \<Rightarrow>
                  fst (resolve_mx_records E qname raise_exception h) =
                    (if x = DNSException \<and> \<not> raise_exception then Inr [] else Inl x))"
proof -
  obtain q where q: "drop (nat (py_find qname (CHR ''@'') + 1)) qname = q"
     "CHR ''@'' \<notin> set qname \<longrightarrow> q = qname"
     "CHR ''@'' \<in> set qname \<longrightarrow> (\<exists>l. qname = l @ CHR ''@'' # q \<and> CHR ''@'' \<notin> set l)"
    using strip_prefix[of qname] by blast
  have "snd (resolve_mx_records E qname raise_exception h) = h @ [DnsQuery q]"
    using assms q(1) by (simp add: resolve_mx_records_def Let_def split: sum.splits)
  moreover have "(case query_mx E (h @ [DnsQuery q]) of
                Inr answer \<Rightarrow>
                  (\<exists>exchanges. fst (resolve_mx_records E qname raise_exception h) = Inr exchanges \<and>
                     sorted (map snd exchanges) \<and>
                     (\<forall>p. filter (\<lambda>ex. snd ex = p) exchanges =
                          filter (\<lambda>ex. snd ex = p)
                            (map (\<lambda>(t, p). (rstrip (CHR ''.'') t, p)) answer)))
              | Inl x \<Rightarrow>
                  fst (resolve_mx_records E qname raise_exception h) =
                    (if x = DNSException \<and> \<not> raise_exception then Inr [] else Inl x))"
    using assms q(1)
    by (auto simp: resolve_mx_records_def Let_def sort_key_stable split: sum.splits)
  ultimately show ?thesis using q(2,3) by blast
qed

theorem resolve_mx_records_sorted_witness:
  "dns (test_env mx_table accept_all) \<and>
   CHR ''@'' \<in> set ''bob@x.com'' \<and>
   snd (resolve_mx_records (test_env mx_table accept_all) ''bob@x.com'' False []) =
     [DnsQuery ''x.com''] \<and>
   (\<exists>exchanges.
      fst (resolve_mx_records (test_env mx_table accept_all) ''bob@x.com'' False []) = Inr exchanges \<and>
      sorted (map snd exchanges) \<and>
      filter (\<lambda>ex. snd ex = 10) exchanges = [(''mx1.x.com'', 10)])"
proof -
  let ?E = "test_env mx_table accept_all"
  have d: "dns ?E" by (simp add: test_env_def)
  have e: "snd (resolve_mx_records ?E ''bob@x.com'' False []) = [DnsQuery ''x.com'']"
    by code_simp
  have a: "query_mx ?E [DnsQuery ''x.com''] = Inr [(''mx2.x.com.'', 20), (''mx1.x.com.'', 10)]"
    by (simp add: test_env_def mx_table_def)
  have r: "rstrip (CHR ''.'') ''mx1.x.com.'' = ''mx1.x.com''" by (simp add: rstrip_def)
  obtain q where q: "snd (resolve_mx_records ?E ''bob@x.com'' False []) = [] @ [DnsQuery q]"
    and c: "(case query_mx ?E ([] @ [DnsQuery q]) of
                Inr answer \<Rightarrow>
                  (\<exists>exchanges. fst (resolve_mx_records ?E ''bob@x.com'' False []) = Inr exchanges \<and>
                     sorted (map snd exchanges) \<and>
                     (\<forall>p. filter (\<lambda>ex. snd ex = p) exchanges =
                          filter (\<lambda>ex. snd ex = p)
                            (map (\<lambda>(t, p). (rstrip (CHR ''.'') t, p)) answer)))
              | Inl x \<Rightarrow>
                  fst (resolve_mx_records ?E ''bob@x.com'' False []) =
                    (if x = DNSException \<and> \<not> False then Inr [] else Inl x))"
    using resolve_mx_records_sorted[OF d, of "''bob@x.com''" False "[]"] by blast
  from q e have "q = ''x.com''" by simp
  with c a obtain exchanges where
    x: "fst (resolve_mx_records ?E ''bob@x.com'' False []) = Inr exchanges"
       "sorted (map snd exchanges)"
       "\<forall>p. filter (\<lambda>ex. snd ex = p) exchanges =
            filter (\<lambda>ex. snd ex = p)
              (map (\<lambda>(t, p). (rstrip (CHR ''.'') t, p)) [(''mx2.x.com.'', 20), (''mx1.x.com.'', 10)])"
    by auto
  from x(3) r have "filter (\<lambda>ex. snd ex = 10) exchanges = [(''mx1.x.com'', 10)]" by simp
  with d e x(1,2) show ?thesis by auto
qed

section \<open>The SMTP session\<close>

lemma quit_log:
  assumes "quit E s h = (r, s', h')"
  shows "h' = (if smtp s then h @ [Quit] else h)" and "same_cfg s s'"
  using assms by (auto simp: quit_def lib_def split: if_splits reply.splits)

lemma quit_ok: "quit E s h = (Inr u, s', h') \<Longrightarrow> \<not> smtp s'"
  by (auto simp: quit_def lib_def split: if_splits reply.splits)

lemma quit_grows:
  assumes "quit E s h = (r, s', h')"
  shows "grows is_greet h h'"
  using quit_log(1)[OF assms] by (simp add: grows_def)

lemma quit_answered_ok:
  "smtp s \<Longrightarrow> quit_answered E h \<Longrightarrow> quit E s h = (Inr (), s\<lparr>smtp := False\<rparr>, h @ [Quit])"
  by (auto simp: quit_def lib_def quit_answered_def split: reply.splits)

lemma quit_and_raise_log:
  assumes "quit_and_raise E x s h = (r, s', h')"
  shows "grows is_greet h h'" and "same_cfg s s'"
  using assms quit_log[of E s h] quit_grows[of E s h]
  by (auto simp: quit_and_raise_def split: prod.splits sum.splits)

lemma start_connect_log:
  assumes "start_connect E s h = (r, s', h')"
  shows "grows is_greet (h @ [Connect (host s)]) h'" and "same_cfg s s'"
  using assms quit_and_raise_log[of E "''invalid_smtp''" s "h @ [Connect (host s)]"]
  by (auto simp: start_connect_def lib_def split: prod.splits sum.splits reply.splits if_splits)

lemma start_helo_log:
  assumes "start_helo E s h = (r, s', h')"
  shows "grows is_greet h h'" and "same_cfg s s'"
  using assms quit_and_raise_log[of E "''invalid_smtp''" s "h @ [Ehlo (local_hostname s)]"]
  by (auto simp: start_helo_def lib_def grows_def
      split: prod.splits sum.splits reply.splits if_splits)

lemma start_mail_log:
  assumes "start_mail E s h = (r, s', h')"
  shows "grows is_greet h h'" and "same_cfg s s'"
  using assms quit_and_raise_log[of E "''invalid_smtp''" s "h @ [Mail (mail_from s)]"]
  by (auto simp: start_mail_def lib_def grows_def
      split: prod.splits sum.splits reply.splits if_splits)

lemma start_log:
  assumes "start E s h = (r, s', h')"
  shows "grows is_greet (h @ [Connect (host s)]) h'" and "same_cfg s s'"
proof -
  obtain r1 s1 h1 where c: "start_connect E (s\<lparr>smtp := True\<rparr>) h = (r1, s1, h1)"
    by (metis prod_cases3)
  obtain r2 s2 h2 where e: "start_helo E s1 h1 = (r2, s2, h2)" by (metis prod_cases3)
  obtain r3 s3 h3 where m: "start_mail E s2 h2 = (r3, s3, h3)" by (metis prod_cases3)
  have g1: "grows is_greet (h @ [Connect (host s)]) h1" and c1: "same_cfg s s1"
    using start_connect_log[OF c] same_cfg_trans[of s "s\<lparr>smtp := True\<rparr>" s1] by simp_all
  have g2: "grows is_greet (h @ [Connect (host s)]) h2" and c2: "same_cfg s s2"
    using start_helo_log[OF e] g1 c1 by (blast intro: grows_trans same_cfg_trans)+
  have g3: "grows is_greet (h @ [Connect (host s)]) h3" and c3: "same_cfg s s3"
    using start_mail_log[OF m] g2 c2 by (blast intro: grows_trans same_cfg_trans)+
  from assms c e m have "(s', h') = (s1, h1) \<or> (s', h') = (s2, h2) \<or> (s', h') = (s3, h3)"
    by (auto simp: start_def Let_def split: if_splits sum.splits)
  then show "grows is_greet (h @ [Connect (host s)]) h'" and "same_cfg s s'"
    using g1 g2 g3 c1 c2 c3 by auto
qed


lemma start_grows:
  assumes "start E s h = (r, s', h')"
  shows "grows is_control h h'"
  using start_log(1)[OF assms]
  by (auto simp: grows_def is_control_def list_all_iff)

lemma restart_log:
  assumes "restart E s h = (r, s', h')"
  shows "grows is_control h h'" and "same_cfg s s'"
proof -
  obtain r1 s1 h1 where q: "quit E s h = (r1, s1, h1)" by (metis prod_cases3)
  note q1 = quit_log(2)[OF q] greet_control[OF quit_grows[OF q]]
  show "grows is_control h h'"
  proof (cases r1)
    case (Inl x)
    with assms q q1 show ?thesis by (auto simp: restart_def)
  next
    case (Inr u)
    with assms q have st: "start E s1 h1 = (r, s', h')" by (simp add: restart_def)
    from start_grows[OF st] q1 show ?thesis by (blast intro: grows_trans)
  qed
  show "same_cfg s s'"
  proof (cases r1)
    case (Inl x)
    with assms q q1 show ?thesis by (auto simp: restart_def)
  next
    case (Inr u)
    with assms q have st: "start E s1 h1 = (r, s', h')" by (simp add: restart_def)
    from start_log(2)[OF st] q1(1) show ?thesis by (blast intro: same_cfg_trans)
  qed
qed

lemma start_session:
  assumes "start E s h = (r, s', h')"
  shows "grows (is_session (host s)) h h'"
  using start_log(1)[OF assms]
  by (auto simp: grows_def is_session_def list_all_iff)

lemma restart_session:
  assumes "restart E s h = (r, s', h')"
  shows "grows (is_session (host s)) h h'"
proof -
  obtain r1 s1 h1 where q: "quit E s h = (r1, s1, h1)" by (metis prod_cases3)
  have g: "grows (is_session (host s)) h h1"
    by (rule grows_mono[OF quit_grows[OF q]]) (simp add: is_session_def)
  show ?thesis
  proof (cases r1)
    case (Inl x)
    with assms q g show ?thesis by (auto simp: restart_def)
  next
    case (Inr u)
    with assms q have st: "start E s1 h1 = (r, s', h')" by (simp add: restart_def)
    from start_session[OF st] same_cfg_host[OF quit_log(2)[OF q]] g show ?thesis
      by (auto intro: grows_trans)
  qed
qed



subsection \<open>With well-behaved libraries\<close>







subsection \<open>A connect that times out\<close>

lemma start_connect_fails:
  assumes "smtplib E (h @ [Connect (host s)]) = Raise x" and "is_socket_error x"
  shows "start E s h = (Inl (SMTPSessionError ''no_connect''), s\<lparr>smtp := True\<rparr>, h @ [Connect (host s)])"
  using assms by (simp add: start_def start_connect_def lib_def)

lemma start_bad_greeting:
  assumes "smtplib E (h @ [Connect (host s)]) = Code c" and "c \<noteq> 220"
    and "quit_answered E (h @ [Connect (host s)])"
  shows "start E s h = (Inl (SMTPSessionError ''invalid_smtp''), s\<lparr>smtp := False\<rparr>,
                         h @ [Connect (host s), Quit])"
  using assms quit_answered_ok[of "s\<lparr>smtp := True\<rparr>" E "h @ [Connect (host s)]"]
  by (simp add: start_def start_connect_def quit_and_raise_def lib_def is_socket_error_def)

lemma start_helo_times_out:
  assumes "smtplib E (h @ [Connect (host s)]) = Code 220"
    and "smtplib E (h @ [Connect (host s), Ehlo (local_hostname s)]) = Raise SocketTimeout"
  shows "start E s h = (Inl (SMTPSessionError ''timeout''), s\<lparr>smtp := True\<rparr>,
                         h @ [Connect (host s), Ehlo (local_hostname s)])"
  using assms by (simp add: start_def start_connect_def start_helo_def lib_def)

text \<open>
  Claim C4 at a connect that times out: \<^verbatim>\<open>smtp.connect\<close> raises \<^verbatim>\<open>socket.timeout\<close>, the
  handler \<^verbatim>\<open>except socket.error\<close> of the inner \<^verbatim>\<open>try\<close> catches it, and the session fails
  with \<^verbatim>\<open>no_connect\<close>, as for a refused connection. A timeout of the greeting that follows
  a connect does reach the handler \<^verbatim>\<open>except socket.timeout\<close> and fails with \<^verbatim>\<open>timeout\<close>.
\<close>

theorem connect_timeout_is_no_connect:
  "smtplib (test_env mx_table connect_times_out) [Connect ''mx1.x.com''] = Raise SocketTimeout \<and>
   start (test_env mx_table connect_times_out) (SMTPSession ''mx1.x.com'' no_opts) [] =
     (Inl (SMTPSessionError ''no_connect''),
      (SMTPSession ''mx1.x.com'' no_opts)\<lparr>smtp := True\<rparr>, [Connect ''mx1.x.com'']) \<and>
   verify_smtp_connection (test_env mx_table connect_times_out) ''mx1.x.com'' no_opts [] =
     (Inr (False, ''no_connect''), [Connect ''mx1.x.com'']) \<and>
   verify_smtp_connection (test_env mx_table helo_times_out) ''mx1.x.com'' no_opts [] =
     (Inr (False, ''timeout''), [Connect ''mx1.x.com'', Ehlo ''google-public-dns-a.google.com''])"
  by code_simp

section \<open>Probing recipients\<close>

lemma cons_item_eq: "cons_item x r = (a, b) \<longleftrightarrow> (\<exists>xs. a = x # xs \<and> r = (xs, b))"
  by (cases r) (auto simp: cons_item_def)

lemma recipients_loop_inactive:
  "recipients_loop E False es k s h =
     (map (\<lambda>e. (e, False)) (take k es), if k \<le> length es then Suspended else Finished, s, h)"
proof (induction es arbitrary: k)
  case Nil
  then show ?case by (cases k) simp_all
next
  case (Cons e es)
  then show ?case by (cases k) (simp_all add: cons_item_def)
qed

lemma recipients_loop_session:
  "recipients_loop E a es k s h = (items, en, s', h') \<Longrightarrow>
     grows (\<lambda>ev. is_session (host s) ev \<or> ev \<in> Rcpt ` set es) h h' \<and> same_cfg s s'"
proof (induction es arbitrary: a k s h items en s' h')
  case Nil
  then show ?case by (cases k) simp_all
next
  case (Cons e es)
  let ?P = "\<lambda>ev. is_session (host s) ev \<or> ev \<in> Rcpt ` set (e # es)"
  have IH: "grows ?P h0 h' \<and> same_cfg s0 s'"
    if "recipients_loop E a0 es k0 s0 h0 = (items0, en, s', h')" and "same_cfg s s0"
    for a0 k0 s0 h0 items0 en s' h'
  proof -
    from that(2) have "host s0 = host s" by (simp add: same_cfg_host)
    with Cons.IH[OF that(1)] show ?thesis by (auto elim: grows_mono)
  qed
  have ctl: "\<And>h h'. grows (is_session (host s)) h h' \<Longrightarrow> grows ?P h h'"
    by (erule grows_mono) simp
  have grt: "\<And>h h'. grows is_greet h h' \<Longrightarrow> grows ?P h h'"
    by (erule grows_mono) (simp add: is_session_def)
  show ?case
  proof (cases k)
    case 0
    with Cons.prems show ?thesis by simp
  next
    case (Suc k')
    show ?thesis
    proof (cases a)
      case False
      with Cons.prems Suc obtain items' where
        "items = (e, False) # items'" "recipients_loop E False es k' s h = (items', en, s', h')"
        by (auto simp: cons_item_eq)
      from IH[OF this(2)] show ?thesis by simp
    next
      case True
      let ?h1 = "h @ [Rcpt e]"
      have g1: "grows ?P h ?h1" by (rule grows_snoc) simp
      show ?thesis
      proof (cases "smtplib E ?h1")
        case (Raise x)
        show ?thesis
        proof (cases "lost x")
          case False
          with Cons.prems Suc True Raise g1 show ?thesis by (simp add: lib_def)
        next
          case lost: True
          obtain r2 s2 h2 where q: "quit E s ?h1 = (r2, s2, h2)" by (metis prod_cases3)
          note q2 = grt[OF quit_grows[OF q]] quit_log(2)[OF q]
          show ?thesis
          proof (cases r2)
            case (Inl y)
            with Cons.prems Suc True Raise lost q q2 g1 show ?thesis
              by (auto simp: lib_def intro: grows_trans)
          next
            case (Inr u)
            with Cons.prems Suc True Raise lost q
            have "recipients_loop E False es (Suc k') s2 h2 = (items, en, s', h')"
              by (simp add: lib_def)
            from IH[OF this q2(2)] q2 g1 show ?thesis
              by (blast intro: grows_trans same_cfg_trans)
          qed
        qed
      next
        case (Code c)
        from Cons.prems Suc True Code obtain items' where
          it: "items = (e, c = 250 \<or> c = 251) # items'" and
          rest: "(if k' = 0 then ([], Suspended, s, ?h1)
                else if c = 552 \<or> c = 554 then
                  (case restart E s ?h1 of
                     (Inl x, s2, h2) \<Rightarrow>
                       if lost x then
                         (case quit E s2 h2 of
                            (Inl y, s3, h3) \<Rightarrow> ([], Raised y, s3, h3)
                          | (Inr u, s3, h3) \<Rightarrow> recipients_loop E False es k' s3 h3)
                       else ([], Raised x, s2, h2)
                   | (Inr u, s2, h2) \<Rightarrow> recipients_loop E True es k' s2 h2)
                else recipients_loop E True es k' s ?h1) = (items', en, s', h')"
          by (auto simp: lib_def cons_item_eq)
        show ?thesis
        proof (cases "k' = 0")
          case True
          with rest g1 show ?thesis by simp
        next
          case k: False
          show ?thesis
          proof (cases "c = 552 \<or> c = 554")
            case False
            with rest k have "recipients_loop E True es k' s ?h1 = (items', en, s', h')" by simp
            from IH[OF this] g1 show ?thesis by (auto intro: grows_trans)
          next
            case busy: True
            obtain r2 s2 h2 where rs: "restart E s ?h1 = (r2, s2, h2)" by (metis prod_cases3)
            note r2 = ctl[OF restart_session[OF rs]] restart_log(2)[OF rs]
            show ?thesis
            proof (cases r2)
              case (Inr u)
              with rest k busy rs have "recipients_loop E True es k' s2 h2 = (items', en, s', h')"
                by simp
              from IH[OF this r2(2)] g1 r2 show ?thesis by (blast intro: grows_trans same_cfg_trans)
            next
              case (Inl x)
              show ?thesis
              proof (cases "lost x")
                case False
                with rest k busy rs Inl r2 g1 show ?thesis by (auto intro: grows_trans)
              next
                case lost: True
                obtain r3 s3 h3 where q: "quit E s2 h2 = (r3, s3, h3)" by (metis prod_cases3)
                note q3 = grt[OF quit_grows[OF q]] quit_log(2)[OF q]
                show ?thesis
                proof (cases r3)
                  case (Inl y)
                  with rest k busy rs \<open>r2 = Inl x\<close> lost q have "s' = s3 \<and> h' = h3" by simp
                  with q3 r2 g1 show ?thesis by (blast intro: grows_trans same_cfg_trans)
                next
                  case (Inr u)
                  with rest k busy rs \<open>r2 = Inl x\<close> lost q
                  have "recipients_loop E False es k' s3 h3 = (items', en, s', h')" by simp
                  from IH[OF this same_cfg_trans[OF r2(2) q3(2)]] q3 r2 g1 show ?thesis
                    by (blast intro: grows_trans same_cfg_trans)
                qed
              qed
            qed
          qed
        qed
      qed
    qed
  qed
qed






lemma session_failed_shape:
  "\<exists>extra en. session_failed x es out k h = (out @ extra, en, None, h)"
  by (cases x) (auto simp: session_failed_def split: prod.splits)

lemma verify_after_enter:
  assumes "opt_extra opts = []" and "enter E (SMTPSession hst opts) h = (Inr u, s1, h1)"
    and "recipients E es (Suc k) s1 h1 = (items, en, s2, h2)"
  shows "\<exists>extra en' it h3.
           verify_smtp_recipients E hst es opts (Suc k) h = (map label items @ extra, en', it, h3) \<and>
           grows is_greet h2 h3"
proof -
  obtain r3 s3 h3 where q: "quit E s2 h2 = (r3, s3, h3)" by (metis prod_cases3)
  note g = quit_grows[OF q]
  show ?thesis
  proof (cases en)
    case Suspended
    with assms show ?thesis
      by (simp add: verify_smtp_recipients_def label_def)
  next
    case Finished
    show ?thesis
    proof (cases r3)
      case (Inr v)
      with assms Finished q g show ?thesis
        by (simp add: verify_smtp_recipients_def label_def)
    next
      case (Inl y)
      obtain extra en' where
        "session_failed y es (map label items) (Suc k - length (map label items)) h3 = (map label items @ extra, en', None, h3)"
        using session_failed_shape by blast
      with assms Finished q g Inl show ?thesis
        by (simp add: verify_smtp_recipients_def label_def)
    qed
  next
    case (Raised x)
    obtain extra en' where x:
      "session_failed x es (map label items) (Suc k - length (map label items)) h3 = (map label items @ extra, en', None, h3)"
      using session_failed_shape by blast
    show ?thesis
    proof (cases r3)
      case (Inr v)
      with assms Raised q g x show ?thesis
        by (simp add: verify_smtp_recipients_def label_def)
    next
      case (Inl y')
      obtain extra2 en2 where
        "session_failed y' es (map label items) (Suc k - length (map label items)) h3 = (map label items @ extra2, en2, None, h3)"
        using session_failed_shape by blast
      with assms Raised q g Inl show ?thesis
        by (simp add: verify_smtp_recipients_def label_def)
    qed
  qed
qed

lemma close_gen_log: "grows is_greet h (close_gen E it h)"
proof (cases it)
  case None
  then show ?thesis by (simp add: close_gen_def)
next
  case (Some s)
  obtain r s1 h1 where q: "quit E s h = (r, s1, h1)" by (metis prod_cases3)
  from quit_grows[OF q] q Some show ?thesis by (simp add: close_gen_def)
qed

lemma verify_session:
  assumes "verify_smtp_recipients E hst es opts k h = (items, en, it, h')"
  shows "grows (\<lambda>ev. is_session hst ev \<or> ev \<in> Rcpt ` set es) h h'"
proof (cases k)
  case 0
  with assms show ?thesis by (simp add: verify_smtp_recipients_def)
next
  case (Suc k0)
  let ?P = "\<lambda>ev. is_session hst ev \<or> ev \<in> Rcpt ` set es"
  have grt: "\<And>h h'. grows is_greet h h' \<Longrightarrow> grows ?P h h'"
    by (erule grows_mono) (simp add: is_session_def)
  show ?thesis
  proof (cases "opt_extra opts = []")
    case False
    with assms Suc show ?thesis by (simp add: verify_smtp_recipients_def)
  next
    case True
    obtain r1 s1 h1 where en: "enter E (SMTPSession hst opts) h = (r1, s1, h1)"
      by (metis prod_cases3)
    have st: "start E (SMTPSession hst opts) h = (r1, s1, h1)"
      using en by (simp add: enter_def SMTPSession_def)
    have hs: "host (SMTPSession hst opts) = hst" by (simp add: SMTPSession_def)
    from start_session[OF st] hs have g1: "grows ?P h h1"
      by (auto elim: grows_mono)
    from same_cfg_host[OF start_log(2)[OF st]] hs have h1: "host s1 = hst" by simp
    show ?thesis
    proof (cases r1)
      case (Inl x)
      obtain extra en' where "session_failed x es [] (Suc k0) h1 = ([] @ extra, en', None, h1)"
        using session_failed_shape by blast
      with assms Suc True en Inl have "h' = h1" by (simp add: verify_smtp_recipients_def)
      with g1 show ?thesis by simp
    next
      case (Inr u)
      obtain items0 en0 s2 h2 where r: "recipients E es (Suc k0) s1 h1 = (items0, en0, s2, h2)"
        by (metis prod_cases4)
      have g2: "grows ?P h1 h2"
      proof (cases "es = [] \<or> \<not> smtp s1")
        case True
        with r show ?thesis by (auto simp: recipients_def split: if_splits)
      next
        case False
        with r have "recipients_loop E True es (Suc k0) s1 h1 = (items0, en0, s2, h2)"
          by (simp add: recipients_def)
        from recipients_loop_session[OF this] h1 show ?thesis by simp
      qed
      from verify_after_enter[OF True en[unfolded Inr] r] obtain extra en' it' h3 where
        v: "verify_smtp_recipients E hst es opts (Suc k0) h = (map label items0 @ extra, en', it', h3)"
        and g3: "grows is_greet h2 h3" by blast
      from v assms Suc have "h' = h3" by simp
      with g1 g2 grt[OF g3] show ?thesis
        by (blast intro: grows_trans)
    qed
  qed
qed

lemma verify_one_session:
  assumes "verify_smtp_recipient E hst e opts h = (r, h')"
  shows "grows (\<lambda>ev. is_session hst ev \<or> ev = Rcpt e) h h'"
proof -
  let ?P = "\<lambda>ev. is_session hst ev \<or> ev = Rcpt e"
  obtain items en it h1 where v: "verify_smtp_recipients E hst [e] opts 1 h = (items, en, it, h1)"
    by (metis prod_cases4)
  have g: "grows ?P h h1" using verify_session[OF v] by (rule grows_mono) auto
  have c: "grows ?P h1 (close_gen E it h1)"
    by (rule grows_mono[OF close_gen_log]) (simp add: is_session_def)
  from assms v have "h' = h1 \<or> h' = close_gen E it h1"
    by (auto simp: verify_smtp_recipient_def split: list.splits gen_end.splits)
  with g c show ?thesis by (auto intro: grows_trans)
qed

lemma verify_log_fine:
  assumes "verify_smtp_recipients E hst es opts k h = (items, en, it, h')"
  shows "grows (\<lambda>ev. is_control ev \<or> ev \<in> Rcpt ` set es) h h'"
  using verify_session[OF assms]
  by (rule grows_mono) (auto simp: is_session_def is_control_def)

lemma verify_log:
  assumes "verify_smtp_recipients E hst es opts k h = (items, en, it, h')"
  shows "grows is_smtp h h'"
  using verify_log_fine[OF assms] by (rule grows_mono) (auto simp: is_smtp_def)

lemma verify_one_log:
  assumes "verify_smtp_recipient E hst e opts h = (r, h')"
  shows "grows is_smtp h h'"
proof -
  obtain items en it h1 where v: "verify_smtp_recipients E hst [e] opts 1 h = (items, en, it, h1)"
    by (metis prod_cases4)
  note g = verify_log[OF v]
  from assms v have "h' = h1 \<or> h' = close_gen E it h1"
    by (auto simp: verify_smtp_recipient_def split: list.splits gen_end.splits)
  with g greet_smtp[OF close_gen_log[of h1 E it]] show ?thesis
    by (auto intro: grows_trans)
qed

lemma failed_loop_rejects: "list_all (\<lambda>i. \<not> fst (snd i)) (fst (failed_loop rsn es k))"
proof (induction es arbitrary: k)
  case Nil
  then show ?case by (cases k) simp_all
next
  case (Cons e es)
  then show ?case by (cases k) (simp_all add: cons_item_def)
qed

lemma session_failed_items:
  assumes "session_failed x es out k h = (items, en, it, h')"
  shows "\<exists>extra. items = out @ extra \<and> list_all (\<lambda>i. \<not> fst (snd i)) extra"
proof (cases "\<exists>rsn. x = SMTPSessionError rsn")
  case True
  then obtain rsn where x: "x = SMTPSessionError rsn" by blast
  obtain fi fe where f: "failed_loop rsn es k = (fi, fe)" by (cases "failed_loop rsn es k")
  with assms x have "items = out @ fi" by (simp add: session_failed_def)
  with failed_loop_rejects[of rsn es k] f show ?thesis by simp
next
  case False
  with assms have "items = out" by (cases x) (simp_all add: session_failed_def)
  then show ?thesis by simp
qed

lemma label_accepted:
  "list_all (\<lambda>i. fst (snd i) \<longrightarrow> snd (snd i) = ''accepted_email'') (map label items)"
  by (induction items) (auto simp: label_def)

lemma verify_accepted:
  assumes "verify_smtp_recipients E hst es opts k h = (items, en, it, h')"
  shows "list_all (\<lambda>i. fst (snd i) \<longrightarrow> snd (snd i) = ''accepted_email'') items"
proof (cases "k = 0 \<or> opt_extra opts \<noteq> []")
  case True
  with assms show ?thesis by (auto simp: verify_smtp_recipients_def split: if_splits)
next
  case False
  then obtain k0 where k: "k = Suc k0" and o: "opt_extra opts = []" by (cases k) auto
  obtain r1 s1 h1 where en: "enter E (SMTPSession hst opts) h = (r1, s1, h1)"
    by (metis prod_cases3)
  show ?thesis
  proof (cases r1)
    case (Inl x)
    with assms k o en have "session_failed x es [] (Suc k0) h1 = (items, en, it, h')"
      by (simp add: verify_smtp_recipients_def)
    from session_failed_items[OF this] show ?thesis by (auto simp: list_all_iff)
  next
    case (Inr u)
    obtain items0 en0 s2 h2 where r: "recipients E es (Suc k0) s1 h1 = (items0, en0, s2, h2)"
      by (metis prod_cases4)
    obtain r3 s3 h3 where q: "quit E s2 h2 = (r3, s3, h3)" by (metis prod_cases3)
    have "\<exists>extra. items = map label items0 @ extra \<and> list_all (\<lambda>i. \<not> fst (snd i)) extra"
    proof (cases en0)
      case Suspended
      with assms k o en Inr r show ?thesis by (simp add: verify_smtp_recipients_def)
    next
      case Finished
      show ?thesis
      proof (cases r3)
        case (Inr v)
        with assms k o en \<open>r1 = Inr u\<close> r q Finished show ?thesis
          by (simp add: verify_smtp_recipients_def)
      next
        case (Inl y)
        with assms k o en \<open>r1 = Inr u\<close> r q Finished
        have "session_failed y es (map label items0) (Suc k0 - length (map label items0)) h3 = (items, en, it, h')"
          by (simp add: verify_smtp_recipients_def)
        from session_failed_items[OF this] show ?thesis .
      qed
    next
      case (Raised x)
      show ?thesis
      proof (cases r3)
        case (Inr v)
        with assms k o en \<open>r1 = Inr u\<close> r q Raised
        have "session_failed x es (map label items0) (Suc k0 - length (map label items0)) h3 = (items, en, it, h')"
          by (simp add: verify_smtp_recipients_def)
        from session_failed_items[OF this] show ?thesis .
      next
        case (Inl y)
        with assms k o en \<open>r1 = Inr u\<close> r q Raised
        have "session_failed y es (map label items0) (Suc k0 - length (map label items0)) h3 = (items, en, it, h')"
          by (simp add: verify_smtp_recipients_def)
        from session_failed_items[OF this] show ?thesis .
      qed
    qed
    then obtain extra where e: "items = map label items0 @ extra"
      and x: "list_all (\<lambda>i. \<not> fst (snd i)) extra" by blast
    from x have "list_all (\<lambda>i. fst (snd i) \<longrightarrow> snd (snd i) = ''accepted_email'') extra"
      by (simp add: list_all_iff)
    with label_accepted[of items0] e show ?thesis by simp
  qed
qed

lemma verify_one_accepted:
  assumes "verify_smtp_recipient E hst e opts h = (Inr (e', True, r), h')"
  shows "r = ''accepted_email''" and "grows (\<lambda>ev. is_session hst ev \<or> ev = Rcpt e) h h'"
proof -
  obtain items en it h1 where v: "verify_smtp_recipients E hst [e] opts 1 h = (items, en, it, h1)"
    by (metis prod_cases4)
  from assms v obtain rest where i: "items = (e', True, r) # rest"
    by (auto simp: verify_smtp_recipient_def split: list.splits gen_end.splits)
  from verify_accepted[OF v] i show "r = ''accepted_email''" by simp
  from assms show "grows (\<lambda>ev. is_session hst ev \<or> ev = Rcpt e) h h'"
    by (rule verify_one_session)
qed

subsection \<open>With well-behaved libraries\<close>







subsection \<open>A connection lost on a RCPT\<close>

lemma recipients_loop_lost_rcpt:
  assumes "smtplib E (h @ [Rcpt e]) = Raise x" and "lost x" and "smtp s"
    and "quit_answered E (h @ [Rcpt e])"
  shows "recipients_loop E True (e # es) (Suc k) s h =
           (map (\<lambda>e'. (e', False)) (take (Suc k) es),
            if Suc k \<le> length es then Suspended else Finished,
            s\<lparr>smtp := False\<rparr>, h @ [Rcpt e, Quit])"
  using assms quit_answered_ok[OF assms(3,4)]
  by (simp add: lib_def recipients_loop_inactive del: recipients_loop.simps(3))
     (simp add: lib_def recipients_loop_inactive)

text \<open>
  Claim C6 at a connection lost on the first of two recipients: there is one result for
  two recipients, for the second of them; and for one recipient, \<^verbatim>\<open>verify_smtp_recipient\<close>
  finds the generator empty and raises \<^verbatim>\<open>StopIteration\<close>.
\<close>

theorem lost_recipient_not_reported:
  "verify_smtp_recipients (test_env mx_table drops_a) ''mx1.x.com'' [''a@x.com'', ''b@x.com'']
       no_opts 3 [] =
     ([(''b@x.com'', False, ''rejected_email'')], Finished, None,
      [Connect ''mx1.x.com'', Ehlo ''google-public-dns-a.google.com'', Mail ''hello@google.com'',
       Rcpt ''a@x.com'', Quit]) \<and>
   verify_smtp_recipient (test_env mx_table drops_a) ''mx1.x.com'' ''a@x.com'' no_opts [] =
     (Inl StopIteration,
      [Connect ''mx1.x.com'', Ehlo ''google-public-dns-a.google.com'', Mail ''hello@google.com'',
       Rcpt ''a@x.com'', Quit])"
  by code_simp

subsection \<open>A 552 or 554 on a RCPT\<close>




section \<open>The orchestrator\<close>

lemma unprobed_mark [simp]: "unprobed (mark r c ex a) = unprobed a"
  by (simp add: unprobed_def mark_def)

lemma map_update_same:
  assumes "f y = f (xs ! i)"
  shows "map f (xs[i := y]) = map f xs"
proof (cases "i < length xs")
  case True
  then show ?thesis using assms by (simp add: map_update list_update_same_conv)
next
  case False
  then show ?thesis by (simp add: list_update_beyond)
qed

lemma mark_group_unprobed: "map unprobed (mark_group r c ex grp as) = map unprobed as"
  unfolding mark_group_def
  by (induction grp arbitrary: as) (simp_all add: map_update_same)

lemma mark_each_unprobed: "map unprobed (mark_each c ex pairs as) = map unprobed as"
  unfolding mark_each_def
  by (induction pairs arbitrary: as) (auto simp: map_update_same)

lemma fold_update_nth:
  assumes "distinct js"
  shows "fold (\<lambda>i as. as[i := f (as ! i)]) js xs =
           map (\<lambda>j. if j \<in> set js then f (xs ! j) else xs ! j) [0..<length xs]"
  using assms
proof (induction js arbitrary: xs)
  case Nil
  then show ?case by (simp add: map_nth)
next
  case (Cons j js)
  have "fold (\<lambda>i as. as[i := f (as ! i)]) (j # js) xs =
          fold (\<lambda>i as. as[i := f (as ! i)]) js (xs[j := f (xs ! j)])" by simp
  also have "\<dots> = map (\<lambda>i. if i \<in> set js then f (xs[j := f (xs ! j)] ! i) else xs[j := f (xs ! j)] ! i)
                      [0..<length xs]"
    using Cons by simp
  also have "\<dots> = map (\<lambda>i. if i \<in> set (j # js) then f (xs ! i) else xs ! i) [0..<length xs]"
  proof -
    have "\<And>x. x \<in> set js \<Longrightarrow> j \<noteq> x" using Cons.prems by auto
    then show ?thesis by (auto simp: nth_list_update_neq)
  qed
  finally show ?case .
qed

lemma mark_group_nth:
  assumes "distinct grp" and "i < length as"
  shows "mark_group r c ex grp as ! i = (if i \<in> set grp then mark r c ex (as ! i) else as ! i)"
  using assms by (simp add: mark_group_def fold_update_nth)

lemma distinct_with_exchanges: "distinct (with_exchanges as)"
  by (simp add: with_exchanges_def)

lemma set_with_exchanges:
  "set (with_exchanges as) = {i. i < length as \<and> truthy_list (all_exchanges (as ! i))}"
  by (auto simp: with_exchanges_def)


lemma set_statuses_nth:
  assumes "i < length as"
  shows "set_statuses (with_exchanges bs) as ! i =
           (if i < length bs \<and> truthy_list (all_exchanges (bs ! i)) then set_status (as ! i) else as ! i)"
  using assms
  by (simp add: set_statuses_def fold_update_nth[OF distinct_with_exchanges] set_with_exchanges)

lemma length_set_statuses: "length (set_statuses refs as) = length as"
  unfolding set_statuses_def by (induction refs arbitrary: as) simp_all

lemma set_status_fields:
  "query (set_status a) = query a" "all_exchanges (set_status a) = all_exchanges a"
  "reason (set_status a) = reason a" "disposable (set_status a) = disposable a"
  "catch_all (set_status a) = catch_all a" "gibberish (set_status a) = gibberish a"
  "valid (set_status a) = valid a"
  by (simp_all add: set_status_def)

lemma set_status_status:
  "status (set_status a) =
     (if reason a = Some ''accepted_email''
      then (if truthy_bool (disposable a) \<or> gibberish a \<or> catch_all a then Risky else Deliverable)
      else Undeliverable)"
  by (simp add: set_status_def)

lemma unprobed_fields:
  assumes "unprobed a = unprobed b"
  shows "query a = query b" "all_exchanges a = all_exchanges b" "gibberish a = gibberish b"
    "disposable a = disposable b" "valid a = valid b" "domain a = domain b" "status a = status b"
  using assms by (cases a, cases b, simp add: unprobed_def)+


subsection \<open>The loop over the exchanges\<close>

lemma exchange_loop_log:
  assumes "exchange_loop E opts exs cae emails grp as it h = (r, h')"
  shows "grows is_smtp h h'"
  using assms
proof (induction exs arbitrary: h)
  case Nil
  then show ?case by simp
next
  case (Cons ex exs)
  obtain exch pref where ex: "ex = (exch, pref)" by (cases ex)
  obtain r1 h1 where p: "verify_smtp_recipient E exch cae opts h = (r1, h1)" by (cases "verify_smtp_recipient E exch cae opts h")
  note g1 = verify_one_log[OF p]
  show ?case
  proof (cases r1)
    case (Inl x)
    with Cons.prems ex p g1 show ?thesis by simp
  next
    case (Inr res)
    obtain e accepted rsn where res: "res = (e, accepted, rsn)" by (cases res)
    show ?thesis
    proof (cases "rsn = ''no_connect''")
      case True
      with Cons.prems ex p Inr res have "exchange_loop E opts exs cae emails grp as it h1 = (r, h')"
        by simp
      from Cons.IH[OF this] g1 show ?thesis by (blast intro: grows_trans)
    next
      case False
      show ?thesis
      proof (cases accepted)
        case True
        with Cons.prems ex p Inr res False g1 show ?thesis by simp
      next
        case acc: False
        obtain items en it1 h2 where
          v: "verify_smtp_recipients E exch emails opts (length grp) (close_gen E it h1) = (items, en, it1, h2)"
          by (metis prod_cases4)
        from Cons.prems ex p Inr res False acc v have "h' = h2"
          by (auto split: gen_end.splits)
        with g1 greet_smtp[OF close_gen_log[of h1 E it]] verify_log[OF v] show ?thesis
          by (blast intro: grows_trans)
      qed
    qed
  qed
qed

lemma exchange_loop_unprobed:
  assumes "exchange_loop E opts exs cae emails grp as it h = (Inr (as', it'), h')"
  shows "map unprobed as' = map unprobed as"
  using assms
proof (induction exs arbitrary: h)
  case Nil
  then show ?case by simp
next
  case (Cons ex exs)
  obtain exch pref where ex: "ex = (exch, pref)" by (cases ex)
  obtain r1 h1 where p: "verify_smtp_recipient E exch cae opts h = (r1, h1)" by (cases "verify_smtp_recipient E exch cae opts h")
  show ?case
  proof (cases r1)
    case (Inl x)
    with Cons.prems ex p show ?thesis by simp
  next
    case (Inr res)
    obtain e accepted rsn where res: "res = (e, accepted, rsn)" by (cases res)
    show ?thesis
    proof (cases "rsn = ''no_connect''")
      case True
      with Cons.prems ex p Inr res
      have "exchange_loop E opts exs cae emails grp as it h1 = (Inr (as', it'), h')"
        by simp
      from Cons.IH[OF this] show ?thesis .
    next
      case False
      show ?thesis
      proof (cases accepted)
        case True
        with Cons.prems ex p Inr res False show ?thesis by (auto simp: mark_group_unprobed)
      next
        case acc: False
        obtain items en it1 h2 where
          v: "verify_smtp_recipients E exch emails opts (length grp) (close_gen E it h1) = (items, en, it1, h2)"
          by (metis prod_cases4)
        from Cons.prems ex p Inr res False acc v show ?thesis
          by (auto split: gen_end.splits simp: mark_each_unprobed)
      qed
    qed
  qed
qed


lemma exchange_loop_hosts:
  assumes "exchange_loop E opts exs cae emails grp as it h = (r, h')"
  shows "grows (\<lambda>ev. is_greet ev \<or> is_rcpt ev \<or> ev \<in> Connect ` fst ` set exs) h h'"
  using assms
proof (induction exs arbitrary: h)
  case Nil
  then show ?case by simp
next
  case (Cons ex exs)
  let ?P = "\<lambda>ev. is_greet ev \<or> is_rcpt ev \<or> ev \<in> Connect ` fst ` set (ex # exs)"
  obtain exch pref where ex: "ex = (exch, pref)" by (cases ex)
  obtain r1 h1 where p: "verify_smtp_recipient E exch cae opts h = (r1, h1)"
    by (cases "verify_smtp_recipient E exch cae opts h")
  have s: "\<And>h h' es. grows (\<lambda>ev. is_session exch ev \<or> ev \<in> Rcpt ` set es) h h' \<Longrightarrow> grows ?P h h'"
    by (erule grows_mono) (auto simp: is_session_def ex)
  have g1: "grows ?P h h1"
    using verify_one_session[OF p] by (intro s[of "[cae]"]) simp
  have gc: "grows ?P h1 (close_gen E it h1)"
    by (rule grows_mono[OF close_gen_log]) simp
  show ?case
  proof (cases r1)
    case (Inl x)
    with Cons.prems ex p g1 show ?thesis by simp
  next
    case (Inr res)
    obtain e accepted rsn where res: "res = (e, accepted, rsn)" by (cases res)
    show ?thesis
    proof (cases "rsn = ''no_connect''")
      case True
      with Cons.prems ex p Inr res have "exchange_loop E opts exs cae emails grp as it h1 = (r, h')"
        by simp
      from Cons.IH[OF this] have "grows ?P h1 h'" by (rule grows_mono) auto
      with g1 show ?thesis by (rule grows_trans)
    next
      case False
      show ?thesis
      proof (cases accepted)
        case True
        with Cons.prems ex p Inr res False g1 show ?thesis by simp
      next
        case acc: False
        obtain items en it1 h2 where
          v: "verify_smtp_recipients E exch emails opts (length grp) (close_gen E it h1) = (items, en, it1, h2)"
          by (metis prod_cases4)
        from Cons.prems ex p Inr res False acc v have "h' = h2"
          by (auto split: gen_end.splits)
        with g1 gc s[OF verify_session[OF v]] show ?thesis
          by (blast intro: grows_trans)
      qed
    qed
  qed
qed

lemma grows_all: "grows P [] h \<Longrightarrow> list_all P h"
  by (simp add: grows_def)

text \<open>
  Claim C7, as the code has it. The loop over the exchanges goes on to the next exchange
  exactly when the catch-all probe's reason is \<^verbatim>\<open>no_connect\<close>. With any other reason
  (\<^verbatim>\<open>invalid_smtp\<close> and \<^verbatim>\<open>timeout\<close> as well as an accept or a reject) the exchanges that
  follow are never used: the loop does what it does when this exchange is the only one, and
  every connect it makes is to this exchange.
\<close>

theorem fallback_only_on_no_connect:
  assumes "verify_smtp_recipient E exch catch_all_email opts h = (Inr (e, accepted, r), h1)"
  shows "exchange_loop E opts ((exch, pref) # rest) catch_all_email emails grp addresses it h =
           (if r = ''no_connect''
            then exchange_loop E opts rest catch_all_email emails grp addresses it h1
            else exchange_loop E opts [(exch, pref)] catch_all_email emails grp addresses it h) \<and>
         (r \<noteq> ''no_connect'' \<longrightarrow>
            grows (\<lambda>ev. is_greet ev \<or> is_rcpt ev \<or> ev = Connect exch) h
              (snd (exchange_loop E opts ((exch, pref) # rest) catch_all_email emails grp addresses
                      it h)))"
proof (intro conjI impI)
  show eq: "exchange_loop E opts ((exch, pref) # rest) catch_all_email emails grp addresses it h =
           (if r = ''no_connect''
            then exchange_loop E opts rest catch_all_email emails grp addresses it h1
            else exchange_loop E opts [(exch, pref)] catch_all_email emails grp addresses it h)"
    using assms by simp
  assume "r \<noteq> ''no_connect''"
  with eq have "exchange_loop E opts ((exch, pref) # rest) catch_all_email emails grp addresses it h =
      exchange_loop E opts [(exch, pref)] catch_all_email emails grp addresses it h" by simp
  moreover obtain res h' where
    l: "exchange_loop E opts [(exch, pref)] catch_all_email emails grp addresses it h = (res, h')"
    by (cases "exchange_loop E opts [(exch, pref)] catch_all_email emails grp addresses it h")
  moreover from exchange_loop_hosts[OF l]
  have "grows (\<lambda>ev. is_greet ev \<or> is_rcpt ev \<or> ev = Connect exch) h h'"
    by (rule grows_mono) auto
  ultimately show "grows (\<lambda>ev. is_greet ev \<or> is_rcpt ev \<or> ev = Connect exch) h
              (snd (exchange_loop E opts ((exch, pref) # rest) catch_all_email emails grp addresses
                      it h))"
    by simp
qed

theorem fallback_only_on_no_connect_witness:
  "verify_smtp_recipient (test_env mx_table mx1_bad_greeting) ''mx1.x.com'' ''probe-i@x.com'' no_opts [] =
     (Inr (''probe-i@x.com'', False, ''invalid_smtp''), [Connect ''mx1.x.com'', Quit]) \<and>
   exchange_loop (test_env mx_table mx1_bad_greeting) no_opts
       [(''mx1.x.com'', 10), (''mx2.x.com'', 20)] ''probe-i@x.com'' [''a@x.com''] [0]
       [EmailAddress ''a@x.com''] None [] =
     exchange_loop (test_env mx_table mx1_bad_greeting) no_opts
       [(''mx1.x.com'', 10)] ''probe-i@x.com'' [''a@x.com''] [0]
       [EmailAddress ''a@x.com''] None [] \<and>
   Connect ''mx2.x.com'' \<notin> set (snd (exchange_loop (test_env mx_table mx1_bad_greeting) no_opts
       [(''mx1.x.com'', 10), (''mx2.x.com'', 20)] ''probe-i@x.com'' [''a@x.com''] [0]
       [EmailAddress ''a@x.com''] None []))"
proof -
  let ?E = "test_env mx_table mx1_bad_greeting"
  have p: "verify_smtp_recipient ?E ''mx1.x.com'' ''probe-i@x.com'' no_opts [] =
           (Inr (''probe-i@x.com'', False, ''invalid_smtp''), [Connect ''mx1.x.com'', Quit])"
    by code_simp
  note t = fallback_only_on_no_connect[OF p, of 10 "[(''mx2.x.com'', 20)]" "[''a@x.com'']" "[0]"
        "[EmailAddress ''a@x.com'']" None]
  have ne: "''invalid_smtp'' \<noteq> ''no_connect''" by simp
  have e: "exchange_loop ?E no_opts
       [(''mx1.x.com'', 10), (''mx2.x.com'', 20)] ''probe-i@x.com'' [''a@x.com''] [0]
       [EmailAddress ''a@x.com''] None [] =
     exchange_loop ?E no_opts
       [(''mx1.x.com'', 10)] ''probe-i@x.com'' [''a@x.com''] [0]
       [EmailAddress ''a@x.com''] None []"
    using t[THEN conjunct1] by (simp only: ne if_False)
  have "list_all (\<lambda>ev. is_greet ev \<or> is_rcpt ev \<or> ev = Connect ''mx1.x.com'')
      (snd (exchange_loop ?E no_opts
       [(''mx1.x.com'', 10), (''mx2.x.com'', 20)] ''probe-i@x.com'' [''a@x.com''] [0]
       [EmailAddress ''a@x.com''] None []))"
    by (rule grows_all[OF mp[OF t[THEN conjunct2] ne]])
  hence n: "Connect ''mx2.x.com'' \<notin> set (snd (exchange_loop ?E no_opts
       [(''mx1.x.com'', 10), (''mx2.x.com'', 20)] ''probe-i@x.com'' [''a@x.com''] [0]
       [EmailAddress ''a@x.com''] None []))"
    by (auto simp: list_all_iff)
  from p e n show ?thesis by (intro conjI)
qed


text \<open>
  The claim fails where the first exchange greets with 554 and the second would accept: the
  address ends with reason \<^verbatim>\<open>invalid_smtp\<close> from the first exchange, and the second
  exchange is never connected to.
\<close>

theorem no_fallback_on_invalid_smtp_counterexample:
  "inspect_list (test_env mx_table mx1_bad_greeting) [''a@x.com''] no_opts [] =
     (Inr [\<lparr> query = ''a@x.com'', valid = Some True, email = Some ''a@x.com'', user = Some ''a'',
             domain = Some ''x.com'', free = Some False, disposable = Some False,
             role = Some False, gibberish = False, catch_all = False,
             exchange = Some ''mx1.x.com'',
             all_exchanges = Some [(''mx1.x.com'', 10), (''mx2.x.com'', 20)],
             status = Undeliverable, reason = Some ''invalid_smtp'' \<rparr>],
      [DnsQuery ''x.com'', Uuid4, Connect ''mx1.x.com'', Quit, Connect ''mx1.x.com'', Quit]) \<and>
   mx1_bad_greeting [DnsQuery ''x.com'', Uuid4, Connect ''mx1.x.com'', Quit, Connect ''mx2.x.com'']
     = Code 220"
  by code_simp

subsection \<open>The groups\<close>

text \<open>
  What holds of claim C3 for one group: when the probe is accepted at an exchange, with a
  reason that then is \<^verbatim>\<open>accepted_email\<close>, the loop ends there, every address of the group
  is marked with that reason, as catch-all and with that exchange, and the only RCPT sent is
  the one for the synthetic address, to that exchange.
\<close>

lemma catch_all_marks_group:
  assumes "verify_smtp_recipient E exch cae opts h = (Inr (e, True, r), h1)"
  shows "exchange_loop E opts ((exch, pref) # rest) cae emails grp as it h =
           (Inr (mark_group ''accepted_email'' True exch grp as, it), h1)"
    and "grows (\<lambda>ev. is_session exch ev \<or> ev = Rcpt cae) h h1"
  using assms verify_one_accepted[OF assms] by simp_all

text \<open>
  Claim C3 at three addresses of which the first and the third share a domain and the
  second has another: \<^verbatim>\<open>groupby\<close> makes three groups, three synthetic addresses are
  built, and the domain of the first and the third address is probed twice.
\<close>

theorem split_domain_probed_twice:
  "filter (\<lambda>ev. is_rcpt ev \<or> ev = Uuid4)
     (snd (inspect_list (test_env mx_table accept_all) [''a@x.com'', ''b@y.com'', ''c@x.com'']
             no_opts [])) =
     [Uuid4, Rcpt ''probe-i@x.com'', Uuid4, Rcpt ''probe-ii@y.com'', Uuid4, Rcpt ''probe-iii@x.com'']"
  by code_simp

lemma inspect_group_log:
  assumes "inspect_group E opts g as it h = (r, h')"
  shows "grows (\<lambda>ev. \<not> is_dns ev) h h'"
proof -
  have s: "\<And>h h'. grows is_smtp h h' \<Longrightarrow> grows (\<lambda>ev. \<not> is_dns ev) h h'"
    by (erule grows_mono)
       (auto simp: is_smtp_def is_control_def is_dns_def is_connect_def is_greet_def is_rcpt_def
          split: event.splits)
  have u: "grows (\<lambda>ev. \<not> is_dns ev) h (h @ [Uuid4])"
    by (rule grows_snoc) (simp add: is_dns_def)
  from assms show ?thesis
    by (auto simp: inspect_group_def Let_def split: list.splits option.splits
        intro: u grows_trans[OF u s[OF exchange_loop_log]])
qed

lemma inspect_group_unprobed:
  assumes "inspect_group E opts g as it h = (Inr (as', it'), h')"
  shows "map unprobed as' = map unprobed as"
  using assms
  by (auto simp: inspect_group_def Let_def split: list.splits option.splits
      dest: exchange_loop_unprobed)

lemma inspect_groups_log:
  assumes "inspect_groups E opts gs as it h = (r, h')"
  shows "grows (\<lambda>ev. \<not> is_dns ev) h h'"
  using assms
proof (induction gs arbitrary: as it h)
  case Nil
  then show ?case by simp
next
  case (Cons g gs)
  obtain r1 h1 where g: "inspect_group E opts g as it h = (r1, h1)" by (cases "inspect_group E opts g as it h")
  note g1 = inspect_group_log[OF g]
  show ?case
  proof (cases r1)
    case (Inl x)
    with Cons.prems g g1 show ?thesis by simp
  next
    case (Inr res)
    obtain as1 it1 where "res = (as1, it1)" by (cases res)
    with Cons.prems g Inr have "inspect_groups E opts gs as1 it1 h1 = (r, h')" by simp
    from Cons.IH[OF this] g1 show ?thesis by (blast intro: grows_trans)
  qed
qed

lemma inspect_groups_unprobed:
  assumes "inspect_groups E opts gs as it h = (Inr (as', it'), h')"
  shows "map unprobed as' = map unprobed as"
  using assms
proof (induction gs arbitrary: as it h)
  case Nil
  then show ?case by simp
next
  case (Cons g gs)
  obtain r1 h1 where g: "inspect_group E opts g as it h = (r1, h1)" by (cases "inspect_group E opts g as it h")
  show ?case
  proof (cases r1)
    case (Inl x)
    with Cons.prems g show ?thesis by simp
  next
    case (Inr res)
    obtain as1 it1 where res: "res = (as1, it1)" by (cases res)
    with Cons.prems g Inr have "inspect_groups E opts gs as1 it1 h1 = (Inr (as', it'), h')" by simp
    from Cons.IH[OF this] inspect_group_unprobed[OF g[unfolded Inr res]] show ?thesis by simp
  qed
qed




subsection \<open>The first loop\<close>

lemma firsts_set: "set (firsts seen ds) = set ds - seen"
  by (induction ds arbitrary: seen) auto

lemma firsts_distinct: "distinct (firsts seen ds)"
  by (induction ds arbitrary: seen) (auto simp: firsts_set)

lemma cached_mx_cases:
  assumes "cached_mx E d mx h = (Inr exs, mx', h')"
  shows "(mx d = Some exs \<and> mx' = mx \<and> h' = h) \<or>
         (mx d = None \<and> mx' = mx(d \<mapsto> exs) \<and> h' = h @ [DnsQuery (lookup_name d)])"
  using assms
  by (auto simp: cached_mx_def resolve_mx_records_def lookup_name_def Let_def
      split: option.splits prod.splits sum.splits if_splits)

lemma inspect_one_invalid:
  assumes "\<not> is_valid_address E (query a)" and "inspect_one E a mx h = (r, mx', h')"
  shows "mx' = mx \<and> h' = h \<and> (\<exists>a'. r = Inr a' \<and> inspected E mx'' a a')"
  using assms by (auto simp: inspect_one_def Let_def truthy_bool_def inspected_def)

lemma inspect_one_valid:
  assumes "is_valid_address E (query a)" and "inspect_one E a mx h = (Inr a', mx', h')"
  shows "\<exists>exs. cached_mx E (query_domain E (query a)) mx h = (Inr exs, mx', h') \<and>
               all_exchanges a' = Some exs \<and> query a' = query a \<and> gibberish a' = gibberish a \<and>
               valid a' = Some True"
  using assms
  by (auto simp: inspect_one_def Let_def truthy_bool_def query_domain_def
      split: prod.splits sum.splits if_splits)

lemma inspect_all_inspected:
  assumes "inspect_all E as mx h = (Inr as', mx', h')"
  shows "list_all2 (inspected E mx') as as' \<and> mx \<subseteq>\<^sub>m mx' \<and>
         filter is_dns h' = filter is_dns h @
           map (\<lambda>d. DnsQuery (lookup_name d))
             (firsts (dom mx) (map (query_domain E) (filter (is_valid_address E) (map query as))))"
  using assms
proof (induction as arbitrary: mx h as' mx' h')
  case Nil
  then show ?case by simp
next
  case (Cons a as)
  obtain r1 mx1 h1 where one: "inspect_one E a mx h = (r1, mx1, h1)" by (metis prod_cases3)
  from Cons.prems one obtain a1 where r1: "r1 = Inr a1" by (cases r1) auto
  obtain r2 mx2 h2 where rest: "inspect_all E as mx1 h1 = (r2, mx2, h2)" by (metis prod_cases3)
  from Cons.prems one r1 rest obtain as1 where r2: "r2 = Inr as1" by (cases r2) auto
  from Cons.prems one r1 rest r2 have eq: "as' = a1 # as1" "mx' = mx2" "h' = h2" by simp_all
  note IH = Cons.IH[OF rest[unfolded r2]]
  show ?case
  proof (cases "is_valid_address E (query a)")
    case False
    from inspect_one_invalid[OF False one, of mx2] r1
    have "mx1 = mx" "h1 = h" "inspected E mx2 a a1" by auto
    with IH eq False show ?thesis by simp
  next
    case True
    let ?d = "query_domain E (query a)"
    from inspect_one_valid[OF True one[unfolded r1]] obtain exs where
      c: "cached_mx E ?d mx h = (Inr exs, mx1, h1)" and
      f: "all_exchanges a1 = Some exs" "query a1 = query a" "gibberish a1 = gibberish a"
         "valid a1 = Some True"
      by blast
    from cached_mx_cases[OF c] have
      k: "(mx ?d = Some exs \<and> mx1 = mx \<and> h1 = h) \<or>
          (mx ?d = None \<and> mx1 = mx(?d \<mapsto> exs) \<and> h1 = h @ [DnsQuery (lookup_name ?d)])" .
    hence m1: "mx1 ?d = Some exs" by auto
    from IH have le: "mx1 \<subseteq>\<^sub>m mx2" by simp
    with m1 have m2: "mx2 ?d = Some exs" by (auto simp: map_le_def dom_def)
    have head: "inspected E mx2 a a1" using True f m2 by (simp add: inspected_def)
    have le0: "mx \<subseteq>\<^sub>m mx1" using k by (auto simp: map_le_def)
    from k show ?thesis
    proof
      assume hit: "mx ?d = Some exs \<and> mx1 = mx \<and> h1 = h"
      hence "?d \<in> dom mx" by auto
      with IH eq head True hit show ?thesis by simp
    next
      assume miss: "mx ?d = None \<and> mx1 = mx(?d \<mapsto> exs) \<and> h1 = h @ [DnsQuery (lookup_name ?d)]"
      hence nd: "?d \<notin> dom mx" and d1: "dom mx1 = insert ?d (dom mx)" by auto
      let ?ds = "map (query_domain E) (filter (is_valid_address E) (map query as))"
      have fh1: "filter is_dns h1 = filter is_dns h @ [DnsQuery (lookup_name ?d)]"
        using miss by (simp add: is_dns_def)
      from IH have "filter is_dns h2 =
          filter is_dns h1 @ map (\<lambda>d. DnsQuery (lookup_name d)) (firsts (dom mx1) ?ds)"
        by simp
      hence "filter is_dns h2 =
          filter is_dns h @ map (\<lambda>d. DnsQuery (lookup_name d)) (?d # firsts (insert ?d (dom mx)) ?ds)"
        unfolding fh1 d1 by simp
      moreover have "firsts (dom mx) (map (query_domain E) (filter (is_valid_address E) (map query (a # as)))) =
          ?d # firsts (insert ?d (dom mx)) ?ds"
        using True nd by simp
      moreover have "mx \<subseteq>\<^sub>m mx2" using le0 le by (rule map_le_trans)
      moreover have "list_all2 (inspected E mx2) (a # as) (a1 # as1)" using IH head by simp
      ultimately show ?thesis unfolding eq by simp
    qed
  qed
qed




subsection \<open>The whole call\<close>

lemma inspect_list_phases:
  assumes "inspect_list E qs opts h = (Inr result, h')"
  shows "\<exists>as1 mx h1 as2 it h2.
           inspect_all E (map EmailAddress qs) Map.empty h = (Inr as1, mx, h1) \<and>
           inspect_groups E opts (groupby (\<lambda>i. domain (as1 ! i)) (with_exchanges as1)) as1 None h1 =
             (Inr (as2, it), h2) \<and>
           result = set_statuses (with_exchanges as1) as2 \<and> h' = close_gen E it h2"
  using assms
  by (auto simp: inspect_list_def Let_def split: if_splits prod.splits sum.splits)

lemma inspect_list_nth:
  assumes "inspect_list E qs opts h = (Inr result, h')"
  shows "length result = length qs" and
    "\<And>i. i < length qs \<Longrightarrow>
       \<exists>a1 a2 mx. inspected E mx (EmailAddress (qs ! i)) a1 \<and> unprobed a2 = unprobed a1 \<and>
         result ! i = (if truthy_list (all_exchanges a1) then set_status a2 else a2)"
proof -
  from inspect_list_phases[OF assms] obtain as1 mx h1 as2 it h2 where
    p1: "inspect_all E (map EmailAddress qs) Map.empty h = (Inr as1, mx, h1)" and
    p2: "inspect_groups E opts (groupby (\<lambda>i. domain (as1 ! i)) (with_exchanges as1)) as1 None h1 =
             (Inr (as2, it), h2)" and
    p3: "result = set_statuses (with_exchanges as1) as2" by blast
  from inspect_all_inspected[OF p1] have a: "list_all2 (inspected E mx) (map EmailAddress qs) as1"
    by simp
  hence l1: "length as1 = length qs" by (auto dest: list_all2_lengthD)
  from inspect_groups_unprobed[OF p2] have u: "map unprobed as2 = map unprobed as1" .
  hence l2: "length as2 = length as1" by (rule map_eq_imp_length_eq)
  show "length result = length qs" using p3 l1 l2 by (simp add: length_set_statuses)
  fix i assume i: "i < length qs"
  from a i have "inspected E mx (EmailAddress (qs ! i)) (as1 ! i)"
    by (auto dest: list_all2_nthD)
  moreover from u i l1 l2 have "unprobed (as2 ! i) = unprobed (as1 ! i)"
    by (metis nth_map)
  moreover have "result ! i = (if truthy_list (all_exchanges (as1 ! i)) then set_status (as2 ! i) else as2 ! i)"
    using i l1 l2 p3 by (simp add: set_statuses_nth)
  ultimately show "\<exists>a1 a2 mx. inspected E mx (EmailAddress (qs ! i)) a1 \<and> unprobed a2 = unprobed a1 \<and>
         result ! i = (if truthy_list (all_exchanges a1) then set_status a2 else a2)"
    by blast
qed




text \<open>
  Claim C2. In the list \<^verbatim>\<open>inspect_list\<close> returns, every address with exchanges has the
  status \<^verbatim>\<open>deliverable\<close> when its reason is \<^verbatim>\<open>accepted_email\<close> and it is neither disposable
  nor catch-all, \<^verbatim>\<open>risky\<close> when its reason is \<^verbatim>\<open>accepted_email\<close> and it is disposable or
  catch-all, and \<^verbatim>\<open>undeliverable\<close> with any other reason; it is never flagged gibberish.
\<close>

theorem inspect_list_final_status:
  assumes "inspect_list E email_addresses opts h = (Inr result, h')"
    and "i < length result" and "truthy_list (all_exchanges (result ! i))"
  shows "status (result ! i) =
           (if reason (result ! i) = Some ''accepted_email''
            then (if truthy_bool (disposable (result ! i)) \<or> catch_all (result ! i)
                  then Risky else Deliverable)
            else Undeliverable) \<and>
         \<not> gibberish (result ! i)"
proof -
  from assms(2) inspect_list_nth(1)[OF assms(1)] have "i < length email_addresses" by simp
  from inspect_list_nth(2)[OF assms(1) this] obtain a1 a2 mx where
    a: "inspected E mx (EmailAddress (email_addresses ! i)) a1" and u: "unprobed a2 = unprobed a1"
    and r: "result ! i = (if truthy_list (all_exchanges a1) then set_status a2 else a2)" by blast
  from u have e: "all_exchanges a2 = all_exchanges a1" "gibberish a2 = gibberish a1"
    by (rule unprobed_fields)+
  from r e have "all_exchanges (result ! i) = all_exchanges a1"
    by (simp add: set_status_fields)
  with assms(3) r have s: "result ! i = set_status a2" by simp
  from a have "\<not> gibberish a1" by (simp add: inspected_def EmailAddress_def)
  with e s show ?thesis
    by (simp add: set_status_fields set_status_status)
qed

theorem inspect_list_final_status_witness:
  "\<exists>result h'.
     inspect_list (test_env mx_table accepts_a) [''a@x.com'', ''b@x.com''] no_opts [] =
       (Inr result, h') \<and>
     truthy_list (all_exchanges (result ! 0)) \<and> reason (result ! 0) = Some ''accepted_email'' \<and>
     status (result ! 0) = Deliverable \<and>
     truthy_list (all_exchanges (result ! 1)) \<and> reason (result ! 1) = Some ''rejected_email'' \<and>
     status (result ! 1) = Undeliverable"
proof -
  let ?r = "inspect_list (test_env mx_table accepts_a) [''a@x.com'', ''b@x.com''] no_opts []"
  let ?res = "projr (fst ?r)"
  have "\<not> isl (fst ?r)" by code_simp
  hence e: "?r = (Inr ?res, snd ?r)" by (cases ?r) auto
  have l: "0 < length ?res" "1 < length ?res" by code_simp+
  have t: "truthy_list (all_exchanges (?res ! 0))" "truthy_list (all_exchanges (?res ! 1))"
    by code_simp+
  have f: "reason (?res ! 0) = Some ''accepted_email''" "\<not> truthy_bool (disposable (?res ! 0))"
    "\<not> catch_all (?res ! 0)" "reason (?res ! 1) = Some ''rejected_email''"
    by code_simp+
  from inspect_list_final_status[OF e l(1) t(1)] f
  have s0: "status (?res ! 0) = Deliverable" by simp
  from inspect_list_final_status[OF e l(2) t(2)] f
  have s1: "status (?res ! 1) = Undeliverable" by simp
  show ?thesis
    by (rule exI[of _ ?res], rule exI[of _ "snd ?r"]) (intro conjI e t f(1) f(4) s0 s1)
qed

text \<open>
  Claim C8. In a call of \<^verbatim>\<open>inspect_list\<close> that returns, the resolver is called once for each
  domain of a valid input address: the queries added to the log are those of a list \<open>ds\<close>
  that holds each of these domains once. Two valid addresses with the same domain get the
  same list of exchanges.
\<close>

theorem mx_resolution_memoized:
  assumes "inspect_list E email_addresses opts h = (Inr result, h')"
  shows "(\<exists>ds. distinct ds \<and>
               set ds = query_domain E ` {q \<in> set email_addresses. is_valid_address E q} \<and>
               filter is_dns h' = filter is_dns h @ map (\<lambda>d. DnsQuery (lookup_name d)) ds) \<and>
         (\<forall>i<length email_addresses. \<forall>j<length email_addresses.
            is_valid_address E (email_addresses ! i) \<and> is_valid_address E (email_addresses ! j) \<and>
            query_domain E (email_addresses ! i) = query_domain E (email_addresses ! j) \<longrightarrow>
            all_exchanges (result ! i) \<noteq> None \<and>
            all_exchanges (result ! i) = all_exchanges (result ! j))"
proof -
  let ?qs = email_addresses
  from inspect_list_phases[OF assms] obtain as1 mx h1 as2 it h2 where
    p1: "inspect_all E (map EmailAddress ?qs) Map.empty h = (Inr as1, mx, h1)" and
    p2: "inspect_groups E opts (groupby (\<lambda>i. domain (as1 ! i)) (with_exchanges as1)) as1 None h1 =
             (Inr (as2, it), h2)" and
    p3: "result = set_statuses (with_exchanges as1) as2" and p4: "h' = close_gen E it h2" by blast
  let ?ds = "firsts {} (map (query_domain E) (filter (is_valid_address E) ?qs))"
  have qmap: "map query (map EmailAddress ?qs) = ?qs"
    by (simp add: comp_def EmailAddress_def)
  from inspect_all_inspected[OF p1]
  have a: "list_all2 (inspected E mx) (map EmailAddress ?qs) as1"
    and d1: "filter is_dns h1 = filter is_dns h @ map (\<lambda>d. DnsQuery (lookup_name d)) ?ds"
    unfolding qmap by simp_all
  have "filter is_dns h' = filter is_dns h2"
    unfolding p4 by (rule greet_no_dns[OF close_gen_log])
  also have "\<dots> = filter is_dns h1" using inspect_groups_log[OF p2] by (rule grows_no_dns)
  finally have d: "filter is_dns h' = filter is_dns h @ map (\<lambda>d. DnsQuery (lookup_name d)) ?ds"
    using d1 by simp
  have "distinct ?ds" by (rule firsts_distinct)
  moreover have "set ?ds = query_domain E ` {q \<in> set ?qs. is_valid_address E q}"
    by (auto simp: firsts_set)
  ultimately have first: "\<exists>ds. distinct ds \<and>
               set ds = query_domain E ` {q \<in> set ?qs. is_valid_address E q} \<and>
               filter is_dns h' = filter is_dns h @ map (\<lambda>d. DnsQuery (lookup_name d)) ds"
    using d by blast
  have l1: "length as1 = length ?qs" using a by (auto dest: list_all2_lengthD)
  from inspect_groups_unprobed[OF p2] have u: "map unprobed as2 = map unprobed as1" .
  hence l2: "length as2 = length as1" by (rule map_eq_imp_length_eq)
  have ex: "all_exchanges (result ! i) = mx (query_domain E (?qs ! i)) \<and> all_exchanges (result ! i) \<noteq> None"
    if i: "i < length ?qs" and v: "is_valid_address E (?qs ! i)" for i
  proof -
    from a i have "inspected E mx (EmailAddress (?qs ! i)) (as1 ! i)"
      by (auto dest: list_all2_nthD)
    with v obtain exs where "all_exchanges (as1 ! i) = Some exs"
        "mx (query_domain E (?qs ! i)) = Some exs"
      unfolding inspected_def by (auto simp: EmailAddress_def)
    hence 1: "all_exchanges (as1 ! i) = mx (query_domain E (?qs ! i))" "all_exchanges (as1 ! i) \<noteq> None"
      by simp_all
    from u i l1 l2 have "unprobed (as2 ! i) = unprobed (as1 ! i)" by (metis nth_map)
    hence 2: "all_exchanges (as2 ! i) = all_exchanges (as1 ! i)" by (rule unprobed_fields)
    have "result ! i = (if truthy_list (all_exchanges (as1 ! i)) then set_status (as2 ! i) else as2 ! i)"
      using i l1 l2 p3 by (simp add: set_statuses_nth)
    hence "all_exchanges (result ! i) = all_exchanges (as2 ! i)" by (simp add: set_status_fields)
    with 1 2 show ?thesis by simp
  qed
  have second: "\<forall>i<length ?qs. \<forall>j<length ?qs.
            is_valid_address E (?qs ! i) \<and> is_valid_address E (?qs ! j) \<and>
            query_domain E (?qs ! i) = query_domain E (?qs ! j) \<longrightarrow>
            all_exchanges (result ! i) \<noteq> None \<and>
            all_exchanges (result ! i) = all_exchanges (result ! j)"
  proof (intro allI impI)
    fix i j assume i: "i < length ?qs" and j: "j < length ?qs"
      and c: "is_valid_address E (?qs ! i) \<and> is_valid_address E (?qs ! j) \<and>
            query_domain E (?qs ! i) = query_domain E (?qs ! j)"
    from ex[OF i] ex[OF j] c
    show "all_exchanges (result ! i) \<noteq> None \<and> all_exchanges (result ! i) = all_exchanges (result ! j)"
      by metis
  qed
  from first second show ?thesis by blast
qed

theorem mx_resolution_memoized_witness:
  "\<exists>result h'.
     inspect_list (test_env mx_table accept_all) [''a@x.com'', ''b@y.com'', ''c@x.com''] no_opts [] =
       (Inr result, h') \<and>
     filter is_dns h' = [DnsQuery ''x.com'', DnsQuery ''y.com''] \<and>
     all_exchanges (result ! 0) = Some [(''mx1.x.com'', 10), (''mx2.x.com'', 20)] \<and>
     all_exchanges (result ! 2) = all_exchanges (result ! 0)"
proof -
  let ?E = "test_env mx_table accept_all"
  let ?qs = "[''a@x.com'', ''b@y.com'', ''c@x.com'']"
  let ?r = "inspect_list ?E ?qs no_opts []"
  let ?res = "projr (fst ?r)"
  have "\<not> isl (fst ?r)" by code_simp
  hence e: "?r = (Inr ?res, snd ?r)" by (cases ?r) auto
  have d: "filter is_dns (snd ?r) = [DnsQuery ''x.com'', DnsQuery ''y.com'']" by code_simp
  have a: "all_exchanges (?res ! 0) = Some [(''mx1.x.com'', 10), (''mx2.x.com'', 20)]" by code_simp
  have v: "is_valid_address ?E (?qs ! 2) \<and> is_valid_address ?E (?qs ! 0) \<and>
           query_domain ?E (?qs ! 2) = query_domain ?E (?qs ! 0)"
    by (simp add: test_env_def query_domain_def partition_at_def)
  from mx_resolution_memoized[OF e] v
  have m: "all_exchanges (?res ! 2) = all_exchanges (?res ! 0)" by simp
  show ?thesis
    by (rule exI[of _ ?res], rule exI[of _ "snd ?r"]) (intro conjI e d a m)
qed

text \<open>
  Claim C10. \<^verbatim>\<open>inspect\<close> raises what \<^verbatim>\<open>inspect_list\<close> raises on the list of the one
  address, and returns the first element of what it returns, which is its only element;
  both leave the same log.
\<close>

theorem inspect_is_first_of_inspect_list:
  "case inspect_list E [email_address] opts h of
     (Inl x, h') \<Rightarrow> inspect E email_address opts h = (Inl x, h')
   | (Inr result, h') \<Rightarrow> \<exists>a. result = [a] \<and> inspect E email_address opts h = (Inr a, h')"
proof (cases "inspect_list E [email_address] opts h")
  case (Pair r h')
  show ?thesis
  proof (cases r)
    case (Inl x)
    with Pair show ?thesis by (simp add: inspect_def)
  next
    case (Inr result)
    from inspect_list_nth(1)[OF Pair[unfolded Inr]] have "length result = 1" by simp
    then obtain a where "result = [a]" by (cases result) auto
    with Pair Inr show ?thesis by (simp add: inspect_def)
  qed
qed

end
